theory Spec2Isabelle
  imports Complex_Main
begin

section \<open>Constants and data\<close>

text \<open>
  The repository holds two copies of the upload manager. One scans for gaps, retries a
  failed part and knows an abort flag; its definitions keep the source's names. The other
  is the earlier logic the first one's comments speak of (a cursor that only moves forward,
  no retry, no abort flag); its definitions carry the suffix \<open>_v1\<close>. Code that is the
  same text in both files is defined once.
\<close>

definition MULTIPART_THRESHOLD :: nat where
  "MULTIPART_THRESHOLD = 5 * 1024 * 1024"

definition PART_SIZE :: nat where
  "PART_SIZE = 5 * 1024 * 1024"

definition MAX_CONCURRENT_UPLOADS :: nat where
  "MAX_CONCURRENT_UPLOADS = 3"

record Part =
  PartNumber :: nat
  ETag :: string

text \<open>
  \<open>UploadState\<close> of the earlier copy, and the one of the gap-scanning copy, which adds
  \<open>isAborted\<close> as its last field.
\<close>

record UploadState_v1 =
  uploadId :: string
  bucket :: string
  key :: string
  filePath :: string
  fileSize :: nat
  uploadedParts :: "Part list"
  nextPartNumber :: nat
  isPaused :: bool

record UploadState = UploadState_v1 +
  isAborted :: bool

datatype status = Uploading | Paused | Completed | Failed

text \<open>\<open>percentage\<close> is a quotient of two counts; it is kept exact, as a rational.\<close>

record ProgressInfo =
  fileName :: string
  uploadedBytes :: nat
  totalBytes :: nat
  percentage :: rat
  currentPart :: "nat option"
  totalParts :: "nat option"
  status :: status

text \<open>
  What a run does to the outside: the commands it sends to the object store, the calls of
  the progress callback, and the back-off timers it sets (milliseconds). A run returns
  the list of these in the order they happen.
\<close>

datatype event =
    PutObject string string
  | CreateMultipartUpload string string
  | ListParts string string string
  | UploadPartCmd string string string nat nat int
  | CompleteMultipartUpload string string string "Part list"
  | AbortMultipartUpload string string string
  | Progress ProgressInfo
  | Delay nat

datatype error =
    FsError
  | S3Error
  | NoUploadId
  | NoResumeId
  | PartFailed nat
  | Incomplete nat nat
  | NoPausedUpload string

text \<open>An awaited call either rejects or resolves with a value.\<close>

datatype 'a reply = Throws | Reply 'a

text \<open>
  One attempt at a part: reading the byte range fails (nothing is sent), the send fails,
  or the store answers, with or without an \<open>ETag\<close>.
\<close>

datatype part_reply = ReadThrows | SendThrows | PartReply "string option"

text \<open>
  While a part task waits, other code of the program runs: the caller may call
  \<open>pauseUpload\<close> or \<open>abortUpload\<close> for the transfer. The waits of a part task are the
  file read (\<open>file.seek\<close>, \<open>file.read\<close>), the request, and the back-off timer; each is named
  by the part number and the retry count.
\<close>

datatype await_point = Reading nat nat | InFlight nat nat | Backoff nat nat

datatype call = NoCall | CallPause | CallAbort

text \<open>
  The environment of a run: the file system's and the object store's answers, and what
  the caller does at each wait of a part task.
\<close>

record env =
  statReply :: "nat reply"
  readFileReply :: "unit reply"
  putReply :: "unit reply"
  createReply :: "string option reply"
  listReply :: "Part list option reply"
  openReply :: "unit reply"
  partReply :: "nat \<Rightarrow> nat \<Rightarrow> part_reply"
  completeReply :: "unit reply"
  abortReply :: "unit reply"
  caller :: "await_point \<Rightarrow> call"

text \<open>
  The manager. \<open>uploadStates\<close> maps a state key to an \<open>UploadState\<close> object, and the
  transfer loop keeps mutating the very object the map holds, also after \<open>abortUpload\<close>
  has deleted the entry. So the objects live in a store, \<open>objects\<close>, the map holds
  references, and \<open>nextRef\<close> is the next fresh reference. (\<open>activeUploads\<close> is declared
  in the source and never used.)
\<close>

type_synonym ref = nat

record 'st Manager =
  objects :: "ref \<Rightarrow> 'st"
  nextRef :: ref
  uploadStates :: "string \<rightharpoonup> ref"

definition modify :: "'st Manager \<Rightarrow> ref \<Rightarrow> ('st \<Rightarrow> 'st) \<Rightarrow> 'st Manager" where
  "modify m r f = m\<lparr>objects := (objects m)(r := f (objects m r))\<rparr>"

text \<open>JavaScript truthiness of an optional string: \<open>undefined\<close> and \<open>""\<close> are falsy.\<close>

definition truthy :: "string option \<Rightarrow> bool" where
  "truthy s = (case s of None \<Rightarrow> False | Some x \<Rightarrow> x \<noteq> [])"

definition stateKey :: "string \<Rightarrow> string \<Rightarrow> string" where
  "stateKey b k = b @ ''/'' @ k"

text \<open>\<open>Math.ceil(fileSize / PART_SIZE)\<close>.\<close>

definition calcTotalParts :: "nat \<Rightarrow> nat" where
  "calcTotalParts fs = (fs + PART_SIZE - 1) div PART_SIZE"

text \<open>
  The part tasks of a batch run side by side, and \<open>Promise.all\<close> rejects with the first
  task that rejects while the other tasks go on. So a batch yields a log: the events of
  its tasks in the order they happen, and, where a task's promise rejects, the error
  together with what the \<open>catch\<close> block of \<open>multipartUpload\<close> reads from the state at that
  moment (the abort flag; nothing in the earlier copy).
\<close>

datatype 'a item = Event event | Rejected error 'a

text \<open>The first rejection of a log: what \<open>await Promise.all\<close> throws, if it throws.\<close>

fun rejection :: "'a item list \<Rightarrow> (error \<times> 'a) option" where
  "rejection [] = None"
| "rejection (Event ev # l) = rejection l"
| "rejection (Rejected e a # l) = Some (e, a)"

text \<open>All events of a log; those until the first rejection; and those after it.\<close>

fun events :: "'a item list \<Rightarrow> event list" where
  "events [] = []"
| "events (Event ev # l) = ev # events l"
| "events (Rejected e a # l) = events l"

fun untilRejection :: "'a item list \<Rightarrow> event list" where
  "untilRejection [] = []"
| "untilRejection (Event ev # l) = ev # untilRejection l"
| "untilRejection (Rejected e a # l) = []"

fun afterRejection :: "'a item list \<Rightarrow> event list" where
  "afterRejection [] = []"
| "afterRejection (Event ev # l) = afterRejection l"
| "afterRejection (Rejected e a # l) = events l"

section \<open>Operations both copies share\<close>

definition getUploadState :: "'st Manager \<Rightarrow> string \<Rightarrow> string \<Rightarrow> 'st option" where
  "getUploadState m b k = map_option (objects m) (uploadStates m (stateKey b k))"

definition pauseUpload ::
  "('a UploadState_v1_scheme) Manager \<Rightarrow> string \<Rightarrow> string \<Rightarrow> ('a UploadState_v1_scheme) Manager" where
  "pauseUpload m b k =
     (case uploadStates m (stateKey b k) of
        None \<Rightarrow> m
      | Some r \<Rightarrow> modify m r (\<lambda>s. s\<lparr>isPaused := True\<rparr>))"

definition failedEvent :: "string \<Rightarrow> nat \<Rightarrow> event" where
  "failedEvent fp fs =
     Progress \<lparr>fileName = fp, uploadedBytes = 0, totalBytes = fs, percentage = 0,
               currentPart = None, totalParts = None, status = Failed\<rparr>"

definition simpleUpload ::
  "env \<Rightarrow> string \<Rightarrow> string \<Rightarrow> string \<Rightarrow> nat \<Rightarrow> (error + unit) \<times> event list" where
  "simpleUpload env b k fp fs =
     (let start = Progress \<lparr>fileName = fp, uploadedBytes = 0, totalBytes = fs, percentage = 0,
                             currentPart = None, totalParts = None, status = Uploading\<rparr>
      in case readFileReply env of
           Throws \<Rightarrow> (Inl FsError, [start, failedEvent fp fs])
         | Reply _ \<Rightarrow>
             (case putReply env of
                Throws \<Rightarrow> (Inl S3Error, [start, PutObject b k, failedEvent fp fs])
              | Reply _ \<Rightarrow>
                  (Inr (), [start, PutObject b k,
                     Progress \<lparr>fileName = fp, uploadedBytes = fs, totalBytes = fs,
                               percentage = 100, currentPart = None, totalParts = None,
                               status = Completed\<rparr>])))"

definition completeMultipartUpload ::
  "env \<Rightarrow> 'a UploadState_v1_scheme \<Rightarrow> (error + unit) \<times> event list" where
  "completeMultipartUpload env st =
     (let ev = [CompleteMultipartUpload (bucket st) (key st) (uploadId st) (uploadedParts st)]
      in case completeReply env of
           Throws \<Rightarrow> (Inl S3Error, ev)
         | Reply _ \<Rightarrow> (Inr (), ev))"

text \<open>
  The end of \<open>uploadPart\<close> after a good answer: push the part, sort by part number (the
  sort is stable), report progress.
\<close>

definition storePart ::
  "('a UploadState_v1_scheme) Manager \<Rightarrow> ref \<Rightarrow> nat \<Rightarrow> string \<Rightarrow> nat
     \<Rightarrow> ('a UploadState_v1_scheme) Manager \<times> event list" where
  "storePart m r partNumber etag fs =
     (let m' = modify m r (\<lambda>s. s\<lparr>uploadedParts :=
                  sort_key PartNumber (uploadedParts s @ [\<lparr>PartNumber = partNumber, ETag = etag\<rparr>])\<rparr>);
          st = objects m' r;
          uploaded = length (uploadedParts st) * PART_SIZE
      in (m', [Progress \<lparr>fileName = filePath st, uploadedBytes = min uploaded fs,
                 totalBytes = fs,
                 percentage = min (of_nat uploaded / of_nat fs * 100) 100,
                 currentPart = Some (length (uploadedParts st)),
                 totalParts = Some (calcTotalParts fs), status = Uploading\<rparr>]))"

section \<open>The gap-scanning copy\<close>

definition abortUpload ::
  "env \<Rightarrow> UploadState Manager \<Rightarrow> string \<Rightarrow> string
     \<Rightarrow> (error + unit) \<times> UploadState Manager \<times> event list" where
  "abortUpload env m b k =
     (case uploadStates m (stateKey b k) of
        None \<Rightarrow> (Inr (), m, [])
      | Some r \<Rightarrow>
          (let m1 = modify m r (\<lambda>s. s\<lparr>isAborted := True\<rparr>);
               st = objects m1 r;
               ev = [AbortMultipartUpload (bucket st) (key st) (uploadId st)]
           in case abortReply env of
                Throws \<Rightarrow> (Inl S3Error, m1, ev)
              | Reply _ \<Rightarrow>
                  (Inr (), m1\<lparr>uploadStates := (uploadStates m1)(stateKey b k := None)\<rparr>, ev)))"


text \<open>
  The caller's call for the transfer's own bucket and key. An error of \<open>abortUpload\<close>
  goes to the caller, not to the transfer.
\<close>

definition deliver ::
  "env \<Rightarrow> UploadState Manager \<Rightarrow> string \<Rightarrow> string \<Rightarrow> call
     \<Rightarrow> UploadState Manager \<times> event list" where
  "deliver env m b k c =
     (case c of
        NoCall \<Rightarrow> (m, [])
      | CallPause \<Rightarrow> (pauseUpload m b k, [])
      | CallAbort \<Rightarrow> (case abortUpload env m b k of (_, m', tr) \<Rightarrow> (m', tr)))"


text \<open>What the caller does while a part task of the transfer \<open>r\<close> is at the wait \<open>a\<close>.\<close>

definition atWait ::
  "env \<Rightarrow> UploadState Manager \<Rightarrow> ref \<Rightarrow> await_point \<Rightarrow> UploadState Manager \<times> event list" where
  "atWait env m r a =
     deliver env m (bucket (objects m r)) (key (objects m r)) (caller env a)"

text \<open>
  \<open>uploadPart\<close> is an \<open>async\<close> function: it runs up to an \<open>await\<close>, and goes on when the
  awaited call has settled, while the other tasks of the batch do the same. Its body is
  therefore modelled piece by piece. \<open>readPart\<close> is the \<open>try\<close> block from the byte range to
  the request: the read (\<open>await file.seek\<close>, \<open>await file.read\<close>) and, unless the read
  throws, the \<open>UploadPartCommand\<close> handed to \<open>s3Client.send\<close>.
\<close>

definition readPart ::
  "env \<Rightarrow> UploadState Manager \<Rightarrow> ref \<Rightarrow> nat \<Rightarrow> nat \<Rightarrow> nat
     \<Rightarrow> UploadState Manager \<times> event list" where
  "readPart env m r partNumber fs retryCount =
     (let offset = (partNumber - 1) * PART_SIZE;
          partSize = min (int PART_SIZE) (int fs - int offset)
      in case atWait env m r (Reading partNumber retryCount) of
           (m1, tr1) \<Rightarrow>
             (case partReply env partNumber retryCount of
                ReadThrows \<Rightarrow> (m1, tr1)
              | _ \<Rightarrow>
                  (m1, tr1 @ [UploadPartCmd (bucket (objects m1 r)) (key (objects m1 r))
                                (uploadId (objects m1 r)) partNumber offset partSize])))"

text \<open>
  The \<open>catch\<close> block of \<open>uploadPart\<close>: while \<open>retryCount < 3\<close> and the transfer is not
  aborted it sets the back-off timer of \<open>1000 * (retryCount + 1)\<close> ms, after which the
  task calls \<open>uploadPart\<close> again (the flag says so); otherwise it throws the error again,
  which rejects the task's promise.
\<close>

definition catchPart ::
  "env \<Rightarrow> UploadState Manager \<Rightarrow> ref \<Rightarrow> nat \<Rightarrow> nat \<Rightarrow> error
     \<Rightarrow> UploadState Manager \<times> bool item list \<times> bool" where
  "catchPart env m r partNumber retryCount e =
     (if retryCount < 3 \<and> \<not> isAborted (objects m r) then
        (case atWait env m r (Backoff partNumber retryCount) of
           (m1, tr1) \<Rightarrow>
             (m1, Event (Delay (1000 * (retryCount + 1))) # map Event tr1, True))
      else (m, [Rejected e (isAborted (objects m r))], False))"

text \<open>
  The rest of the \<open>try\<close> block, once the read or the request has settled: an error goes to
  the \<open>catch\<close> block, and so does an answer without \<open>ETag\<close>; a good answer is stored and
  reported. The flag of the result says whether the task tries again.
\<close>

definition settlePart ::
  "env \<Rightarrow> UploadState Manager \<Rightarrow> ref \<Rightarrow> nat \<Rightarrow> nat \<Rightarrow> nat
     \<Rightarrow> UploadState Manager \<times> bool item list \<times> bool" where
  "settlePart env m r partNumber fs retryCount =
     (case partReply env partNumber retryCount of
        ReadThrows \<Rightarrow> catchPart env m r partNumber retryCount FsError
      | SendThrows \<Rightarrow>
          (case atWait env m r (InFlight partNumber retryCount) of
             (m1, tr1) \<Rightarrow>
               (case catchPart env m1 r partNumber retryCount S3Error of
                  (m2, lg, again) \<Rightarrow> (m2, map Event tr1 @ lg, again)))
      | PartReply etag \<Rightarrow>
          (case atWait env m r (InFlight partNumber retryCount) of
             (m1, tr1) \<Rightarrow>
               (case etag of
                  None \<Rightarrow>
                    (case catchPart env m1 r partNumber retryCount (PartFailed partNumber) of
                       (m2, lg, again) \<Rightarrow> (m2, map Event tr1 @ lg, again))
                | Some e \<Rightarrow>
                    if e = [] then
                      (case catchPart env m1 r partNumber retryCount (PartFailed partNumber) of
                         (m2, lg, again) \<Rightarrow> (m2, map Event tr1 @ lg, again))
                    else
                      (case storePart m1 r partNumber e fs of
                         (m2, tr2) \<Rightarrow> (m2, map Event (tr1 @ tr2), False)))))"

text \<open>
  The tasks of a batch take turns. The model fixes the schedule in which they keep step:
  all tasks that make their attempt number \<open>retryCount\<close> read and send, in batch order;
  then their reads and requests settle, in batch order; then the tasks that failed and
  wait for their timer make the next attempt together.

  \<open>readParts\<close> is the first half of such a round; it returns the tasks that have started
  the attempt. The first attempts start in the \<open>for\<close> loop of the batch, where every
  \<open>uploadPart\<close> passes its guard \<open>if (state.isAborted) return\<close> before any task waits
  (\<open>uploadBatch\<close> below). A later attempt starts with the call of \<open>uploadPart\<close> in the
  \<open>catch\<close> block, and then the guard is the first thing the task does: a task that finds
  the flag set returns, and its promise resolves.
\<close>

fun readParts ::
  "env \<Rightarrow> UploadState Manager \<Rightarrow> ref \<Rightarrow> nat list \<Rightarrow> nat \<Rightarrow> nat
     \<Rightarrow> UploadState Manager \<times> event list \<times> nat list" where
  "readParts env m r [] fs retryCount = (m, [], [])"
| "readParts env m r (p # ps) fs retryCount =
     (if 0 < retryCount \<and> isAborted (objects m r) then readParts env m r ps fs retryCount
      else
        (case readPart env m r p fs retryCount of
           (m1, tr1) \<Rightarrow>
             (case readParts env m1 r ps fs retryCount of
                (m2, tr2, started) \<Rightarrow> (m2, tr1 @ tr2, p # started))))"

text \<open>The second half of a round; it returns the tasks that try again.\<close>

fun settleParts ::
  "env \<Rightarrow> UploadState Manager \<Rightarrow> ref \<Rightarrow> nat list \<Rightarrow> nat \<Rightarrow> nat
     \<Rightarrow> UploadState Manager \<times> bool item list \<times> nat list" where
  "settleParts env m r [] fs retryCount = (m, [], [])"
| "settleParts env m r (p # ps) fs retryCount =
     (case settlePart env m r p fs retryCount of
        (m1, lg1, again) \<Rightarrow>
          (case settleParts env m1 r ps fs retryCount of
             (m2, lg2, retry) \<Rightarrow> (m2, lg1 @ lg2, if again then p # retry else retry)))"

lemma catchPart_again:
  "catchPart env m r p rc e = (m', lg, True) \<Longrightarrow> rc < 3"
  by (auto simp: catchPart_def split: if_splits prod.splits)

lemma settlePart_again:
  "settlePart env m r p fs rc = (m', lg, True) \<Longrightarrow> rc < 3"
  by (auto simp: settlePart_def
           split: part_reply.splits prod.splits option.splits if_splits
           dest: catchPart_again)

lemma settleParts_retry:
  "settleParts env m r ps fs rc = (m', lg, retry) \<Longrightarrow> retry \<noteq> [] \<Longrightarrow> rc < 3"
proof (induction ps arbitrary: m m' lg retry)
  case Nil
  then show ?case by simp
next
  case (Cons p ps)
  then show ?case
    by (auto split: prod.splits if_splits dest: settlePart_again)
qed

text \<open>
  The tasks of a batch from their attempt number \<open>retryCount\<close> on, round after round until
  no task tries again: what \<open>Promise.all(uploadPromises)\<close> waits for, and what goes on
  behind it when it has rejected.
\<close>

function runTasks ::
  "env \<Rightarrow> UploadState Manager \<Rightarrow> ref \<Rightarrow> nat list \<Rightarrow> nat \<Rightarrow> nat
     \<Rightarrow> UploadState Manager \<times> bool item list" where
  "runTasks env m r ps fs retryCount =
     (case readParts env m r ps fs retryCount of
        (m1, tr1, started) \<Rightarrow>
          (case settleParts env m1 r started fs retryCount of
             (m2, lg2, retry) \<Rightarrow>
               if retry = [] then (m2, map Event tr1 @ lg2)
               else (case runTasks env m2 r retry fs (retryCount + 1) of
                       (m3, lg3) \<Rightarrow> (m3, map Event tr1 @ lg2 @ lg3))))"
  by pat_completeness auto
termination
proof (relation "measure (\<lambda>(env, m, r, ps, fs, retryCount). 3 - retryCount)", goal_cases)
  case 1
  show ?case by simp
next
  case (2 env m r ps fs retryCount x1 x2 tr1 started y1 y2 lg2 retry)
  then have "retryCount < 3"
    using settleParts_retry [of env x1 r started fs retryCount y1 lg2 retry] by simp
  then show ?case by simp
qed

declare runTasks.simps [simp del]

text \<open>
  The \<open>for\<close> loop that starts the tasks of a batch, and \<open>await Promise.all\<close>. The loop
  runs without a wait in between, so its check \<open>if (state.isPaused || state.isAborted)
  break\<close> and the guard of each \<open>uploadPart\<close> it calls read the state as it is when the
  batch starts.
\<close>

definition uploadBatch ::
  "env \<Rightarrow> UploadState Manager \<Rightarrow> ref \<Rightarrow> nat list \<Rightarrow> nat
     \<Rightarrow> UploadState Manager \<times> bool item list" where
  "uploadBatch env m r parts fs =
     (if isPaused (objects m r) \<or> isAborted (objects m r) then (m, [])
      else runTasks env m r parts fs 0)"

text \<open>The scan \<open>for (let i = 1; i <= totalParts; i++)\<close> for the next missing part.\<close>

definition findNextPart :: "nat set \<Rightarrow> nat \<Rightarrow> nat \<Rightarrow> nat option" where
  "findNextPart uploaded nextPart tp =
     List.find (\<lambda>i. i \<notin> uploaded \<and> nextPart \<le> i) [1..<Suc tp]"

text \<open>The inner \<open>while\<close> that fills the batch from \<open>tempNext\<close> on.\<close>

function collectParts :: "nat set \<Rightarrow> nat \<Rightarrow> nat \<Rightarrow> nat list \<Rightarrow> nat list" where
  "collectParts uploaded tp tempNext parts =
     (if length parts < MAX_CONCURRENT_UPLOADS \<and> tempNext \<le> tp
      then collectParts uploaded tp (tempNext + 1)
             (if tempNext \<notin> uploaded then parts @ [tempNext] else parts)
      else parts)"
  by pat_completeness auto
termination
  by (relation "measure (\<lambda>(uploaded, tp, tempNext, parts). Suc tp - tempNext)") auto


declare collectParts.simps [simp del]

section \<open>What the tasks of a batch can do\<close>

text \<open>
  Whatever the schedule, a batch is a sequence of a few kinds of steps: the caller's call
  at a wait, a request for a part of the batch, a stored part, a timer, a rejection.
  \<open>steps C X r fs P\<close> relates the manager before such a sequence, its log and the manager
  after it; \<open>C\<close> is what happens at a wait, \<open>X\<close> what a rejection records, \<open>P\<close> the parts of
  the batch. What holds of every such sequence holds of the batches of both copies.
\<close>

fun isIncomplete :: "error \<Rightarrow> bool" where
  "isIncomplete (Incomplete n t) = True"
| "isIncomplete e = False"

inductive steps ::
  "(('a UploadState_v1_scheme) Manager \<Rightarrow> await_point
       \<Rightarrow> ('a UploadState_v1_scheme) Manager \<times> event list)
     \<Rightarrow> (('a UploadState_v1_scheme) Manager \<Rightarrow> 'x) \<Rightarrow> ref \<Rightarrow> nat \<Rightarrow> nat set
     \<Rightarrow> ('a UploadState_v1_scheme) Manager \<Rightarrow> 'x item list
     \<Rightarrow> ('a UploadState_v1_scheme) Manager \<Rightarrow> bool"
  for C X r fs P where
    nil: "steps C X r fs P m [] m"
  | wait: "C m a = (m1, tr) \<Longrightarrow> steps C X r fs P m1 l m'
           \<Longrightarrow> steps C X r fs P m (map Event tr @ l) m'"
  | send: "p \<in> P \<Longrightarrow> steps C X r fs P m l m'
           \<Longrightarrow> steps C X r fs P m
                 (Event (UploadPartCmd (bucket (objects m r)) (key (objects m r))
                           (uploadId (objects m r)) p off len) # l) m'"
  | store: "p \<in> P \<Longrightarrow> e \<noteq> [] \<Longrightarrow> storePart m r p e fs = (m1, tr)
            \<Longrightarrow> steps C X r fs P m1 l m'
            \<Longrightarrow> steps C X r fs P m (map Event tr @ l) m'"
  | timer: "steps C X r fs P m l m' \<Longrightarrow> steps C X r fs P m (Event (Delay d) # l) m'"
  | reject: "\<not> isIncomplete e \<Longrightarrow> steps C X r fs P m l m'
             \<Longrightarrow> steps C X r fs P m (Rejected e (X m) # l) m'"

lemma steps_append:
  "steps C X r fs P m l1 m1 \<Longrightarrow> steps C X r fs P m1 l2 m2
     \<Longrightarrow> steps C X r fs P m (l1 @ l2) m2"
proof (induction rule: steps.induct)
  case (nil m)
  then show ?case by simp
next
  case (wait m a m1 tr l m')
  from steps.wait [OF wait(1) wait(3) [OF wait(4)]] show ?case by simp
next
  case (send p m l m' off len)
  from steps.send [OF send(1) send(3) [OF send(4)]] show ?case by simp
next
  case (store p e m m1 tr l m')
  from steps.store [OF store(1,2,3) store(5) [OF store(6)]] show ?case by simp
next
  case (timer m l m' d)
  from steps.timer [OF timer(2) [OF timer(3)]] show ?case by simp
next
  case (reject e m l m')
  from steps.reject [OF reject(1) reject(3) [OF reject(4)]] show ?case by simp
qed

lemma steps_mono: "steps C X r fs P m l m' \<Longrightarrow> P \<subseteq> Q \<Longrightarrow> steps C X r fs Q m l m'"
proof (induction rule: steps.induct)
  case (nil m)
  show ?case by (rule steps.nil)
next
  case (wait m a m1 tr l m')
  then show ?case by (auto intro: steps.wait)
next
  case (send p m l m' off len)
  then show ?case by (auto intro: steps.send)
next
  case (store p e m m1 tr l m')
  then show ?case by (auto intro: steps.store)
next
  case (timer m l m' d)
  then show ?case by (auto intro: steps.timer)
next
  case (reject e m l m')
  then show ?case by (auto intro: steps.reject)
qed

lemma steps_wait1:
  assumes "C m a = (m1, tr)"
  shows "steps C X r fs P m (map Event tr) m1"
  using steps.wait [where C = C and m = m and a = a and l = "[]", OF assms steps.nil] by simp

lemma steps_store1:
  assumes "p \<in> P" and "e \<noteq> []" and "storePart m r p e fs = (m1, tr)"
  shows "steps C X r fs P m (map Event tr) m1"
  using steps.store [OF assms steps.nil] by simp

text \<open>The steps of the gap-scanning copy.\<close>

abbreviation steps2 ::
  "env \<Rightarrow> ref \<Rightarrow> nat \<Rightarrow> nat set \<Rightarrow> UploadState Manager \<Rightarrow> bool item list
     \<Rightarrow> UploadState Manager \<Rightarrow> bool" where
  "steps2 env r fs P \<equiv>
     steps (\<lambda>m. atWait env m r) (\<lambda>m. isAborted (objects m r)) r fs P"

lemma readPart_steps:
  assumes "readPart env m r p fs rc = (m', tr)" and "p \<in> P"
  shows "steps2 env r fs P m (map Event tr) m'"
proof -
  obtain m1 tr1 where w: "atWait env m r (Reading p rc) = (m1, tr1)"
    by (cases "atWait env m r (Reading p rc)") auto
  have s1: "steps2 env r fs P m (map Event tr1) m1"
    using w by (rule steps_wait1)
  show ?thesis
  proof (cases "partReply env p rc = ReadThrows")
    case True
    with assms(1) w have "m' = m1" "tr = tr1" by (simp_all add: readPart_def Let_def)
    with s1 show ?thesis by simp
  next
    case False
    let ?cmd = "UploadPartCmd (bucket (objects m1 r)) (key (objects m1 r))
                  (uploadId (objects m1 r)) p ((p - 1) * PART_SIZE)
                  (min (int PART_SIZE) (int fs - int ((p - 1) * PART_SIZE)))"
    from False assms(1) w have "m' = m1" "tr = tr1 @ [?cmd]"
      by (auto simp: readPart_def Let_def split: part_reply.splits)
    moreover have "steps2 env r fs P m1 [Event ?cmd] m1"
      using assms(2) by (intro steps.send steps.nil)
    ultimately show ?thesis using steps_append [OF s1] by simp
  qed
qed

lemma catchPart_steps:
  assumes "catchPart env m r p rc e = (m', lg, again)" and "\<not> isIncomplete e"
  shows "steps2 env r fs P m lg m'"
proof (cases "rc < 3 \<and> \<not> isAborted (objects m r)")
  case True
  obtain m1 tr1 where w: "atWait env m r (Backoff p rc) = (m1, tr1)"
    by (cases "atWait env m r (Backoff p rc)") auto
  with True assms(1) have "m' = m1" "lg = Event (Delay (1000 * (rc + 1))) # map Event tr1"
    by (auto simp: catchPart_def)
  moreover have "steps2 env r fs P m (map Event tr1) m1"
    using w by (rule steps_wait1)
  ultimately show ?thesis by (simp add: steps.timer)
next
  case False
  with assms(1) have "m' = m" "lg = [Rejected e (isAborted (objects m r))]"
    by (auto simp: catchPart_def)
  moreover have "steps2 env r fs P m [Rejected e (isAborted (objects m r))] m"
    using assms(2) by (intro steps.reject [where X = "\<lambda>m. isAborted (objects m r)"] steps.nil)
  ultimately show ?thesis by simp
qed

lemma settlePart_steps:
  assumes "settlePart env m r p fs rc = (m', lg, again)" and "p \<in> P"
  shows "steps2 env r fs P m lg m'"
proof (cases "partReply env p rc")
  case ReadThrows
  with assms(1) have "catchPart env m r p rc FsError = (m', lg, again)"
    by (simp add: settlePart_def)
  then show ?thesis by (rule catchPart_steps) simp
next
  case SendThrows
  obtain m1 tr1 where w: "atWait env m r (InFlight p rc) = (m1, tr1)"
    by (cases "atWait env m r (InFlight p rc)") auto
  obtain m2 l2 a2 where c: "catchPart env m1 r p rc S3Error = (m2, l2, a2)"
    by (cases "catchPart env m1 r p rc S3Error") auto
  from SendThrows assms(1) w c have "m' = m2" "lg = map Event tr1 @ l2"
    by (simp_all add: settlePart_def)
  moreover have "steps2 env r fs P m (map Event tr1) m1"
    using w by (rule steps_wait1)
  moreover have "steps2 env r fs P m1 l2 m2"
    using c by (rule catchPart_steps) simp
  ultimately show ?thesis using steps_append by fastforce
next
  case (PartReply etag)
  obtain m1 tr1 where w: "atWait env m r (InFlight p rc) = (m1, tr1)"
    by (cases "atWait env m r (InFlight p rc)") auto
  have s1: "steps2 env r fs P m (map Event tr1) m1"
    using w by (rule steps_wait1)
  show ?thesis
  proof (cases "truthy etag")
    case False
    obtain m2 l2 a2 where c: "catchPart env m1 r p rc (PartFailed p) = (m2, l2, a2)"
      by (cases "catchPart env m1 r p rc (PartFailed p)") auto
    from False PartReply assms(1) w c have "m' = m2" "lg = map Event tr1 @ l2"
      by (auto simp: settlePart_def truthy_def split: option.splits)
    moreover have "steps2 env r fs P m1 l2 m2"
      using c by (rule catchPart_steps) simp
    ultimately show ?thesis using steps_append [OF s1] by simp
  next
    case True
    then obtain e where e: "etag = Some e" "e \<noteq> []"
      by (auto simp: truthy_def split: option.splits)
    obtain m2 tr2 where s: "storePart m1 r p e fs = (m2, tr2)"
      by (cases "storePart m1 r p e fs") auto
    from e PartReply assms(1) w s have "m' = m2" "lg = map Event tr1 @ map Event tr2"
      by (simp_all add: settlePart_def)
    moreover have "steps2 env r fs P m1 (map Event tr2) m2"
      using assms(2) e(2) s by (rule steps_store1)
    ultimately show ?thesis using steps_append [OF s1] by simp
  qed
qed

lemma readParts_started:
  "readParts env m r ps fs rc = (m', tr, started) \<Longrightarrow>
     set started \<subseteq> set ps \<and> length started \<le> length ps"
proof (induction ps arbitrary: m m' tr started)
  case Nil
  then show ?case by simp
next
  case (Cons p ps)
  show ?case
  proof (cases "0 < rc \<and> isAborted (objects m r)")
    case True
    with Cons.prems have "readParts env m r ps fs rc = (m', tr, started)" by simp
    from Cons.IH [OF this] show ?thesis by auto
  next
    case False
    obtain m1 tr1 where a: "readPart env m r p fs rc = (m1, tr1)"
      by (cases "readPart env m r p fs rc") auto
    obtain m2 tr2 st2 where b: "readParts env m1 r ps fs rc = (m2, tr2, st2)"
      by (cases "readParts env m1 r ps fs rc") auto
    have "readParts env m r (p # ps) fs rc = (m2, tr1 @ tr2, p # st2)"
      by (subst readParts.simps) (simp only: False if_False a b prod.case)
    with Cons.prems have "started = p # st2" by simp
    with Cons.IH [OF b] show ?thesis by auto
  qed
qed

lemma settleParts_retry_sub:
  "settleParts env m r ps fs rc = (m', lg, retry) \<Longrightarrow>
     set retry \<subseteq> set ps \<and> length retry \<le> length ps"
proof (induction ps arbitrary: m m' lg retry)
  case Nil
  then show ?case by simp
next
  case (Cons p ps)
  obtain m1 l1 a1 where a: "settlePart env m r p fs rc = (m1, l1, a1)"
    by (cases "settlePart env m r p fs rc") auto
  obtain m2 l2 r2 where b: "settleParts env m1 r ps fs rc = (m2, l2, r2)"
    by (cases "settleParts env m1 r ps fs rc") auto
  from Cons.prems a b have "retry = (if a1 then p # r2 else r2)" by simp
  with Cons.IH [OF b] show ?case by auto
qed

lemma readParts_steps:
  "readParts env m r ps fs rc = (m', tr, started) \<Longrightarrow> set ps \<subseteq> P \<Longrightarrow>
     steps2 env r fs P m (map Event tr) m'"
proof (induction ps arbitrary: m m' tr started)
  case Nil
  then show ?case by (simp add: steps.nil)
next
  case (Cons p ps)
  show ?case
  proof (cases "0 < rc \<and> isAborted (objects m r)")
    case True
    with Cons.prems have "readParts env m r ps fs rc = (m', tr, started)" by simp
    from Cons.IH [OF this] Cons.prems(2) show ?thesis by simp
  next
    case False
    obtain m1 tr1 where a: "readPart env m r p fs rc = (m1, tr1)"
      by (cases "readPart env m r p fs rc") auto
    obtain m2 tr2 st2 where b: "readParts env m1 r ps fs rc = (m2, tr2, st2)"
      by (cases "readParts env m1 r ps fs rc") auto
    have "readParts env m r (p # ps) fs rc = (m2, tr1 @ tr2, p # st2)"
      by (subst readParts.simps) (simp only: False if_False a b prod.case)
    with Cons.prems have "m' = m2" "tr = tr1 @ tr2" by simp_all
    moreover have "steps2 env r fs P m (map Event tr1) m1"
      using a Cons.prems(2) by (auto intro: readPart_steps)
    moreover have "steps2 env r fs P m1 (map Event tr2) m2"
      using Cons.IH [OF b] Cons.prems(2) by simp
    ultimately show ?thesis using steps_append by fastforce
  qed
qed

lemma settleParts_steps:
  "settleParts env m r ps fs rc = (m', lg, retry) \<Longrightarrow> set ps \<subseteq> P \<Longrightarrow>
     steps2 env r fs P m lg m'"
proof (induction ps arbitrary: m m' lg retry)
  case Nil
  then show ?case by (simp add: steps.nil)
next
  case (Cons p ps)
  obtain m1 l1 a1 where a: "settlePart env m r p fs rc = (m1, l1, a1)"
    by (cases "settlePart env m r p fs rc") auto
  obtain m2 l2 r2 where b: "settleParts env m1 r ps fs rc = (m2, l2, r2)"
    by (cases "settleParts env m1 r ps fs rc") auto
  from Cons.prems a b have "m' = m2" "lg = l1 @ l2" by simp_all
  moreover have "steps2 env r fs P m l1 m1"
    using a Cons.prems(2) by (auto intro: settlePart_steps)
  moreover have "steps2 env r fs P m1 l2 m2"
    using Cons.IH [OF b] Cons.prems(2) by simp
  ultimately show ?case using steps_append by fastforce
qed

text \<open>
  A run of the rounds as a derivation: the last round, or a round after which some tasks
  try again.
\<close>

lemma runTasks_induct [consumes 1, case_names final again]:
  assumes run: "runTasks env m r ps fs rc = (m', lg)"
    and final: "\<And>m ps rc m1 tr1 started m2 lg2.
        readParts env m r ps fs rc = (m1, tr1, started) \<Longrightarrow>
        settleParts env m1 r started fs rc = (m2, lg2, []) \<Longrightarrow>
        Q m ps rc m2 (map Event tr1 @ lg2)"
    and again: "\<And>m ps rc m1 tr1 started m2 lg2 retry m3 lg3.
        readParts env m r ps fs rc = (m1, tr1, started) \<Longrightarrow>
        settleParts env m1 r started fs rc = (m2, lg2, retry) \<Longrightarrow>
        retry \<noteq> [] \<Longrightarrow> rc < 3 \<Longrightarrow>
        runTasks env m2 r retry fs (rc + 1) = (m3, lg3) \<Longrightarrow>
        Q m2 retry (rc + 1) m3 lg3 \<Longrightarrow>
        Q m ps rc m3 (map Event tr1 @ lg2 @ lg3)"
  shows "Q m ps rc m' lg"
  using run
proof (induction "3 - rc" arbitrary: rc m ps m' lg rule: less_induct)
  case less
  obtain m1 tr1 started where a: "readParts env m r ps fs rc = (m1, tr1, started)"
    by (cases "readParts env m r ps fs rc") auto
  obtain m2 lg2 retry where b: "settleParts env m1 r started fs rc = (m2, lg2, retry)"
    by (cases "settleParts env m1 r started fs rc") auto
  show ?case
  proof (cases "retry = []")
    case True
    with a b less.prems have "m' = m2" "lg = map Event tr1 @ lg2"
      by (simp_all add: runTasks.simps [of env m r ps fs rc])
    with final [OF a b [unfolded True]] show ?thesis by simp
  next
    case False
    have rc: "rc < 3" using b False by (rule settleParts_retry)
    obtain m3 lg3 where c: "runTasks env m2 r retry fs (rc + 1) = (m3, lg3)"
      by (cases "runTasks env m2 r retry fs (rc + 1)") auto
    have "3 - (rc + 1) < 3 - rc" using rc by simp
    from less.hyps [OF this c] have "Q m2 retry (rc + 1) m3 lg3" .
    from again [OF a b False rc c this]
    show ?thesis
      using a b c False less.prems by (simp add: runTasks.simps [of env m r ps fs rc])
  qed
qed

lemma runTasks_steps:
  "runTasks env m r ps fs rc = (m', lg) \<Longrightarrow> set ps \<subseteq> P \<Longrightarrow> steps2 env r fs P m lg m'"
proof (induction rule: runTasks_induct)
  case (final m ps rc m1 tr1 started m2 lg2)
  have "steps2 env r fs P m (map Event tr1) m1"
    using final(1,3) by (rule readParts_steps)
  moreover have "steps2 env r fs P m1 lg2 m2"
    using readParts_started [OF final(1)] final(3)
    by (intro settleParts_steps [OF final(2)]) auto
  ultimately show ?case by (rule steps_append)
next
  case (again m ps rc m1 tr1 started m2 lg2 retry m3 lg3)
  have st: "set started \<subseteq> P" using readParts_started [OF again(1)] again(7) by auto
  have "steps2 env r fs P m (map Event tr1) m1"
    using again(1,7) by (rule readParts_steps)
  moreover have "steps2 env r fs P m1 lg2 m2"
    using again(2) st by (rule settleParts_steps)
  moreover have "steps2 env r fs P m2 lg3 m3"
    using again(6) settleParts_retry_sub [OF again(2)] st by auto
  ultimately show ?case by (intro steps_append)
qed

lemma uploadBatch_steps:
  "uploadBatch env m r ps fs = (m', lg) \<Longrightarrow> steps2 env r fs (set ps) m lg m'"
  by (auto simp: uploadBatch_def steps.nil split: if_splits intro: runTasks_steps)

text \<open>The steps leave the cursor of every transfer alone.\<close>

lemma pauseUpload_nextPartNumber:
  "nextPartNumber (objects (pauseUpload m b k) x) = nextPartNumber (objects m x)"
  by (simp add: pauseUpload_def modify_def split: option.splits)

lemma abortUpload_nextPartNumber:
  "abortUpload env m b k = (res, m', tr) \<Longrightarrow>
     nextPartNumber (objects m' x) = nextPartNumber (objects m x)"
  by (auto simp: abortUpload_def modify_def Let_def split: option.splits reply.splits)

lemma deliver_nextPartNumber:
  "deliver env m b k c = (m', tr) \<Longrightarrow>
     nextPartNumber (objects m' x) = nextPartNumber (objects m x)"
  by (cases c)
     (auto simp: deliver_def pauseUpload_nextPartNumber split: prod.splits
           dest: abortUpload_nextPartNumber)

lemma storePart_nextPartNumber:
  "storePart m r p etag fs = (m', tr) \<Longrightarrow>
     nextPartNumber (objects m' x) = nextPartNumber (objects m x)"
  by (auto simp: storePart_def modify_def Let_def)

lemma atWait_nextPartNumber:
  "atWait env m r a = (m', tr) \<Longrightarrow>
     nextPartNumber (objects m' x) = nextPartNumber (objects m x)"
  unfolding atWait_def by (rule deliver_nextPartNumber)

lemma steps_nextPartNumber:
  assumes "steps C X r fs P m lg m'"
    and "\<And>m a m1 tr. C m a = (m1, tr) \<Longrightarrow>
           nextPartNumber (objects m1 x) = nextPartNumber (objects m x)"
  shows "nextPartNumber (objects m' x) = nextPartNumber (objects m x)"
  using assms(1)
proof (induction rule: steps.induct)
  case (wait m a m1 tr l m')
  then show ?case using assms(2) by simp
next
  case (store p e m m1 tr l m')
  then show ?case using storePart_nextPartNumber [of m r p e fs m1 tr x] by simp
qed simp_all

lemma uploadBatch_nextPartNumber:
  "uploadBatch env m r ps fs = (m', lg) \<Longrightarrow>
     nextPartNumber (objects m' x) = nextPartNumber (objects m x)"
  by (drule uploadBatch_steps, erule steps_nextPartNumber) (rule atWait_nextPartNumber)

lemma find_Some_holds: "List.find P xs = Some x \<Longrightarrow> P x \<and> x \<in> set xs"
  by (induction xs) (auto split: if_splits)

lemma findNextPart_Some:
  "findNextPart uploaded nextPart tp = Some n \<Longrightarrow>
     n \<notin> uploaded \<and> nextPart \<le> n \<and> 1 \<le> n \<and> n \<le> tp"
  by (auto simp: findNextPart_def dest!: find_Some_holds)

lemma collectParts_last:
  "parts \<noteq> [] \<Longrightarrow> last parts < tempNext \<Longrightarrow>
     collectParts uploaded tp tempNext parts \<noteq> [] \<and>
     last parts \<le> last (collectParts uploaded tp tempNext parts)"
proof (induction uploaded tp tempNext parts rule: collectParts.induct)
  case (1 uploaded tp tempNext parts)
  show ?case
  proof (cases "length parts < MAX_CONCURRENT_UPLOADS \<and> tempNext \<le> tp")
    case False
    then have "collectParts uploaded tp tempNext parts = parts"
      by (subst collectParts.simps) (simp only: if_False)
    with "1.prems" show ?thesis by simp
  next
    case True
    let ?parts = "if tempNext \<notin> uploaded then parts @ [tempNext] else parts"
    have "?parts \<noteq> []" and "last ?parts < tempNext + 1" and "last parts \<le> last ?parts"
      using "1.prems" by auto
    with "1.IH" [OF True] True show ?thesis
      by (simp add: collectParts.simps [of uploaded tp tempNext parts] del: last_snoc)
  qed
qed

text \<open>
  The \<open>while (!state.isPaused && !state.isAborted)\<close> loop of \<open>multipartUpload\<close>. When
  \<open>await Promise.all\<close> throws, the loop is left; the log then also holds what the other
  tasks of that batch do afterwards.
\<close>

function uploadLoop ::
  "env \<Rightarrow> UploadState Manager \<Rightarrow> ref \<Rightarrow> nat \<Rightarrow> nat
     \<Rightarrow> UploadState Manager \<times> bool item list" where
  "uploadLoop env m r fs tp =
     (if isPaused (objects m r) \<or> isAborted (objects m r) then (m, [])
      else
        (let uploadedPartNumbers = set (map PartNumber (uploadedParts (objects m r)))
         in case findNextPart uploadedPartNumbers (nextPartNumber (objects m r)) tp of
              None \<Rightarrow> (m, [])
            | Some nextPartToUpload \<Rightarrow>
                (let m0 = modify m r (\<lambda>s. s\<lparr>nextPartNumber := nextPartToUpload + 1\<rparr>);
                     partsToUpload = collectParts uploadedPartNumbers tp
                                       (nextPartToUpload + 1) [nextPartToUpload];
                     m1 = (if length partsToUpload > 0
                           then modify m0 r (\<lambda>s. s\<lparr>nextPartNumber := last partsToUpload + 1\<rparr>)
                           else m0)
                 in case uploadBatch env m1 r partsToUpload fs of
                      (m2, lg) \<Rightarrow>
                        if rejection lg \<noteq> None then (m2, lg)
                        else if length (uploadedParts (objects m2 r)) = tp then (m2, lg)
                        else (case uploadLoop env m2 r fs tp of
                                (m3, lg') \<Rightarrow> (m3, lg @ lg')))))"
  by pat_completeness auto
termination
proof (relation "measure (\<lambda>(env, m, r, fs, tp). Suc tp - nextPartNumber (objects m r))",
       goal_cases)
  case 1
  show ?case by simp
next
  case (2 env m r fs tp uploaded n m0 parts m1 m2 lg)
  have f: "nextPartNumber (objects m r) \<le> n \<and> n \<le> tp"
    using 2 findNextPart_Some [of uploaded "nextPartNumber (objects m r)" tp n] by simp
  have c: "parts \<noteq> [] \<and> n \<le> last parts"
    using 2 collectParts_last [of "[n]" "n + 1" uploaded tp] by simp
  have "nextPartNumber (objects m1 r) = last parts + 1"
    using 2 c by (simp add: modify_def)
  moreover have "nextPartNumber (objects m2 r) = nextPartNumber (objects m1 r)"
    using 2 uploadBatch_nextPartNumber [of env m1 r parts fs m2 lg r] by simp
  ultimately have "nextPartNumber (objects m2 r) = last parts + 1"
    by simp
  moreover have "nextPartNumber (objects m r) \<le> last parts"
    using f c by linarith
  moreover have "nextPartNumber (objects m r) \<le> tp"
    using f by linarith
  ultimately show ?case by simp
qed

declare uploadLoop.simps [simp del]

definition initiateMultipartUpload ::
  "env \<Rightarrow> string \<Rightarrow> string \<Rightarrow> string \<Rightarrow> nat \<Rightarrow> (error + UploadState) \<times> event list" where
  "initiateMultipartUpload env b k fp fs =
     (let ev = [CreateMultipartUpload b k]
      in case createReply env of
           Throws \<Rightarrow> (Inl S3Error, ev)
         | Reply None \<Rightarrow> (Inl NoUploadId, ev)
         | Reply (Some uid) \<Rightarrow>
             if uid = [] then (Inl NoUploadId, ev)
             else (Inr \<lparr>uploadId = uid, bucket = b, key = k, filePath = fp, fileSize = fs,
                         uploadedParts = [], nextPartNumber = 1, isPaused = False,
                         isAborted = False\<rparr>, ev))"

text \<open>\<open>uploadId || existingState?.uploadId\<close>.\<close>

definition finalUploadId :: "string option \<Rightarrow> string option \<Rightarrow> string option" where
  "finalUploadId uid existing = (if truthy uid then uid else existing)"

definition resumeMultipartUpload ::
  "env \<Rightarrow> UploadState Manager \<Rightarrow> string \<Rightarrow> string \<Rightarrow> string \<Rightarrow> nat \<Rightarrow> string option
     \<Rightarrow> (error + UploadState) \<times> event list" where
  "resumeMultipartUpload env m b k fp fs uid =
     (let existingState = getUploadState m b k
      in case finalUploadId uid (map_option uploadId existingState) of
           None \<Rightarrow> (Inl NoResumeId, [])
         | Some fid \<Rightarrow>
             if fid = [] then (Inl NoResumeId, [])
             else
               (let ev = [ListParts b k fid]
                in case listReply env of
                     Throws \<Rightarrow> (Inl S3Error, ev)
                   | Reply parts \<Rightarrow>
                       (Inr \<lparr>uploadId = fid, bucket = b, key = k, filePath = fp, fileSize = fs,
                              uploadedParts = (case parts of None \<Rightarrow> [] | Some ps \<Rightarrow> ps),
                              nextPartNumber = 1, isPaused = False, isAborted = False\<rparr>, ev)))"

text \<open>
  The outer \<open>catch\<close> of \<open>multipartUpload\<close> once \<open>state\<close> is assigned: when the transfer
  is aborted the call returns, otherwise it reports \<open>failed\<close> and throws the error again.
\<close>

definition catchBlock ::
  "bool \<Rightarrow> string \<Rightarrow> nat \<Rightarrow> error \<Rightarrow> event list \<Rightarrow> (error + unit) \<times> event list" where
  "catchBlock aborted fp fs e tr =
     (if aborted then (Inr (), tr) else (Inl e, tr @ [failedEvent fp fs]))"

definition pausedEvent :: "string \<Rightarrow> nat \<Rightarrow> nat \<Rightarrow> nat \<Rightarrow> event" where
  "pausedEvent fp fs n tp =
     Progress \<lparr>fileName = fp, uploadedBytes = n * PART_SIZE, totalBytes = fs,
               percentage = of_nat n / of_nat tp * 100,
               currentPart = Some n, totalParts = Some tp, status = Paused\<rparr>"

definition completedEvent :: "string \<Rightarrow> nat \<Rightarrow> nat \<Rightarrow> event" where
  "completedEvent fp fs tp =
     Progress \<lparr>fileName = fp, uploadedBytes = fs, totalBytes = fs, percentage = 100,
               currentPart = Some tp, totalParts = Some tp, status = Completed\<rparr>"

text \<open>
  \<open>multipartUpload\<close>. When \<open>await Promise.all\<close> has thrown, the \<open>catch\<close> block runs at
  once, with the state as it is then; what the other tasks of the batch do afterwards
  comes behind its report, and the manager handed back is the one they leave.
\<close>

definition multipartUpload ::
  "env \<Rightarrow> UploadState Manager \<Rightarrow> string \<Rightarrow> string \<Rightarrow> string \<Rightarrow> nat \<Rightarrow> string option
     \<Rightarrow> (error + unit) \<times> UploadState Manager \<times> event list" where
  "multipartUpload env m b k fp fs resumeUploadId =
     (let sk = stateKey b k
      in case (if truthy resumeUploadId \<or> uploadStates m sk \<noteq> None
               then resumeMultipartUpload env m b k fp fs resumeUploadId
               else initiateMultipartUpload env b k fp fs) of
           (Inl e, tr0) \<Rightarrow> (Inl e, m, tr0 @ [failedEvent fp fs])
         | (Inr st, tr0) \<Rightarrow>
             (let r = nextRef m;
                  m1 = m\<lparr>objects := (objects m)(r := st), nextRef := Suc r,
                         uploadStates := (uploadStates m)(sk \<mapsto> r)\<rparr>;
                  tp = calcTotalParts fs
              in case openReply env of
                   Throws \<Rightarrow>
                     (case catchBlock (isAborted (objects m1 r)) fp fs FsError tr0 of
                        (res, tr) \<Rightarrow> (res, m1, tr))
                 | Reply _ \<Rightarrow>
                     (case uploadLoop env m1 r fs tp of
                        (m2, lg) \<Rightarrow>
                          (case rejection lg of
                             Some (e, aborted) \<Rightarrow>
                               (case catchBlock aborted fp fs e (tr0 @ untilRejection lg) of
                                  (res, tr) \<Rightarrow> (res, m2, tr @ afterRejection lg))
                           | None \<Rightarrow>
                               (let tr = events lg;
                                    n = length (uploadedParts (objects m2 r))
                                in if isAborted (objects m2 r) then (Inr (), m2, tr0 @ tr)
                                   else if isPaused (objects m2 r)
                                   then (Inr (), m2, tr0 @ tr @ [pausedEvent fp fs n tp])
                                   else if n \<noteq> tp
                                   then (case catchBlock (isAborted (objects m2 r)) fp fs
                                                 (Incomplete n tp) (tr0 @ tr) of
                                           (res, tr') \<Rightarrow> (res, m2, tr'))
                                   else
                                     (case completeMultipartUpload env (objects m2 r) of
                                        (Inl e, trc) \<Rightarrow>
                                          (case catchBlock (isAborted (objects m2 r)) fp fs e
                                                  (tr0 @ tr @ trc) of
                                             (res, tr') \<Rightarrow> (res, m2, tr'))
                                      | (Inr u, trc) \<Rightarrow>
                                          (Inr (),
                                           m2\<lparr>uploadStates := (uploadStates m2)(sk := None)\<rparr>,
                                           tr0 @ tr @ trc @ [completedEvent fp fs tp])))))))"

definition uploadFile ::
  "env \<Rightarrow> UploadState Manager \<Rightarrow> string \<Rightarrow> string \<Rightarrow> string
     \<Rightarrow> (error + unit) \<times> UploadState Manager \<times> event list" where
  "uploadFile env m b k fp =
     (case statReply env of
        Throws \<Rightarrow> (Inl FsError, m, [])
      | Reply fs \<Rightarrow>
          if fs < MULTIPART_THRESHOLD
          then (case simpleUpload env b k fp fs of (res, tr) \<Rightarrow> (res, m, tr))
          else multipartUpload env m b k fp fs None)"

definition resumeUpload ::
  "env \<Rightarrow> UploadState Manager \<Rightarrow> string \<Rightarrow> string
     \<Rightarrow> (error + unit) \<times> UploadState Manager \<times> event list" where
  "resumeUpload env m b k =
     (case uploadStates m (stateKey b k) of
        None \<Rightarrow> (Inl (NoPausedUpload k), m, [])
      | Some r \<Rightarrow>
          (let m1 = modify m r (\<lambda>s. s\<lparr>isPaused := False\<rparr>);
               st = objects m1 r
           in multipartUpload env m1 (bucket st) (key st) (filePath st) (fileSize st)
                (Some (uploadId st))))"

section \<open>The earlier copy\<close>

definition abortUpload_v1 ::
  "env \<Rightarrow> UploadState_v1 Manager \<Rightarrow> string \<Rightarrow> string
     \<Rightarrow> (error + unit) \<times> UploadState_v1 Manager \<times> event list" where
  "abortUpload_v1 env m b k =
     (case uploadStates m (stateKey b k) of
        None \<Rightarrow> (Inr (), m, [])
      | Some r \<Rightarrow>
          (let st = objects m r;
               ev = [AbortMultipartUpload (bucket st) (key st) (uploadId st)]
           in case abortReply env of
                Throws \<Rightarrow> (Inl S3Error, m, ev)
              | Reply _ \<Rightarrow>
                  (Inr (), m\<lparr>uploadStates := (uploadStates m)(stateKey b k := None)\<rparr>, ev)))"

definition deliver_v1 ::
  "env \<Rightarrow> UploadState_v1 Manager \<Rightarrow> string \<Rightarrow> string \<Rightarrow> call
     \<Rightarrow> UploadState_v1 Manager \<times> event list" where
  "deliver_v1 env m b k c =
     (case c of
        NoCall \<Rightarrow> (m, [])
      | CallPause \<Rightarrow> (pauseUpload m b k, [])
      | CallAbort \<Rightarrow> (case abortUpload_v1 env m b k of (_, m', tr) \<Rightarrow> (m', tr)))"

definition atWait_v1 ::
  "env \<Rightarrow> UploadState_v1 Manager \<Rightarrow> ref \<Rightarrow> await_point
     \<Rightarrow> UploadState_v1 Manager \<times> event list" where
  "atWait_v1 env m r a =
     deliver_v1 env m (bucket (objects m r)) (key (objects m r)) (caller env a)"

text \<open>
  \<open>uploadPart\<close> of the earlier copy has no guard, no \<open>try\<close> and no retry: the read and the
  request, and then the answer, where any error rejects the task's promise.
\<close>

definition readPart_v1 ::
  "env \<Rightarrow> UploadState_v1 Manager \<Rightarrow> ref \<Rightarrow> nat \<Rightarrow> nat
     \<Rightarrow> UploadState_v1 Manager \<times> event list" where
  "readPart_v1 env m r partNumber fs =
     (let offset = (partNumber - 1) * PART_SIZE;
          partSize = min (int PART_SIZE) (int fs - int offset)
      in case atWait_v1 env m r (Reading partNumber 0) of
           (m1, tr1) \<Rightarrow>
             (case partReply env partNumber 0 of
                ReadThrows \<Rightarrow> (m1, tr1)
              | _ \<Rightarrow>
                  (m1, tr1 @ [UploadPartCmd (bucket (objects m1 r)) (key (objects m1 r))
                                (uploadId (objects m1 r)) partNumber offset partSize])))"

definition settlePart_v1 ::
  "env \<Rightarrow> UploadState_v1 Manager \<Rightarrow> ref \<Rightarrow> nat \<Rightarrow> nat
     \<Rightarrow> UploadState_v1 Manager \<times> unit item list" where
  "settlePart_v1 env m r partNumber fs =
     (case partReply env partNumber 0 of
        ReadThrows \<Rightarrow> (m, [Rejected FsError ()])
      | SendThrows \<Rightarrow>
          (case atWait_v1 env m r (InFlight partNumber 0) of
             (m1, tr1) \<Rightarrow> (m1, map Event tr1 @ [Rejected S3Error ()]))
      | PartReply etag \<Rightarrow>
          (case atWait_v1 env m r (InFlight partNumber 0) of
             (m1, tr1) \<Rightarrow>
               (case etag of
                  None \<Rightarrow> (m1, map Event tr1 @ [Rejected (PartFailed partNumber) ()])
                | Some e \<Rightarrow>
                    if e = [] then (m1, map Event tr1 @ [Rejected (PartFailed partNumber) ()])
                    else
                      (case storePart m1 r partNumber e fs of
                         (m2, tr2) \<Rightarrow> (m2, map Event (tr1 @ tr2))))))"

text \<open>
  The tasks of a batch, in the same schedule as above: they all read and send, in batch
  order, then their reads and requests settle, in batch order.
\<close>

fun readParts_v1 ::
  "env \<Rightarrow> UploadState_v1 Manager \<Rightarrow> ref \<Rightarrow> nat list \<Rightarrow> nat
     \<Rightarrow> UploadState_v1 Manager \<times> event list" where
  "readParts_v1 env m r [] fs = (m, [])"
| "readParts_v1 env m r (p # ps) fs =
     (case readPart_v1 env m r p fs of
        (m1, tr1) \<Rightarrow>
          (case readParts_v1 env m1 r ps fs of (m2, tr2) \<Rightarrow> (m2, tr1 @ tr2)))"

fun settleParts_v1 ::
  "env \<Rightarrow> UploadState_v1 Manager \<Rightarrow> ref \<Rightarrow> nat list \<Rightarrow> nat
     \<Rightarrow> UploadState_v1 Manager \<times> unit item list" where
  "settleParts_v1 env m r [] fs = (m, [])"
| "settleParts_v1 env m r (p # ps) fs =
     (case settlePart_v1 env m r p fs of
        (m1, lg1) \<Rightarrow>
          (case settleParts_v1 env m1 r ps fs of (m2, lg2) \<Rightarrow> (m2, lg1 @ lg2)))"

definition runTasks_v1 ::
  "env \<Rightarrow> UploadState_v1 Manager \<Rightarrow> ref \<Rightarrow> nat list \<Rightarrow> nat
     \<Rightarrow> UploadState_v1 Manager \<times> unit item list" where
  "runTasks_v1 env m r ps fs =
     (case readParts_v1 env m r ps fs of
        (m1, tr1) \<Rightarrow>
          (case settleParts_v1 env m1 r ps fs of (m2, lg2) \<Rightarrow> (m2, map Event tr1 @ lg2)))"

abbreviation steps1 ::
  "env \<Rightarrow> ref \<Rightarrow> nat \<Rightarrow> nat set \<Rightarrow> UploadState_v1 Manager \<Rightarrow> unit item list
     \<Rightarrow> UploadState_v1 Manager \<Rightarrow> bool" where
  "steps1 env r fs P \<equiv> steps (\<lambda>m. atWait_v1 env m r) (\<lambda>m. ()) r fs P"

lemma readPart_v1_steps:
  assumes "readPart_v1 env m r p fs = (m', tr)" and "p \<in> P"
  shows "steps1 env r fs P m (map Event tr) m'"
proof -
  obtain m1 tr1 where w: "atWait_v1 env m r (Reading p 0) = (m1, tr1)"
    by (cases "atWait_v1 env m r (Reading p 0)") auto
  have s1: "steps1 env r fs P m (map Event tr1) m1"
    using w by (rule steps_wait1)
  show ?thesis
  proof (cases "partReply env p 0 = ReadThrows")
    case True
    with assms(1) w have "m' = m1" "tr = tr1" by (simp_all add: readPart_v1_def Let_def)
    with s1 show ?thesis by simp
  next
    case False
    let ?cmd = "UploadPartCmd (bucket (objects m1 r)) (key (objects m1 r))
                  (uploadId (objects m1 r)) p ((p - 1) * PART_SIZE)
                  (min (int PART_SIZE) (int fs - int ((p - 1) * PART_SIZE)))"
    from False assms(1) w have "m' = m1" "tr = tr1 @ [?cmd]"
      by (auto simp: readPart_v1_def Let_def split: part_reply.splits)
    moreover have "steps1 env r fs P m1 [Event ?cmd] m1"
      using assms(2) by (intro steps.send steps.nil)
    ultimately show ?thesis using steps_append [OF s1] by simp
  qed
qed

lemma settlePart_v1_steps:
  assumes "settlePart_v1 env m r p fs = (m', lg)" and "p \<in> P"
  shows "steps1 env r fs P m lg m'"
proof -
  have rj: "steps1 env r fs P m0 [Rejected e ()] m0" if "\<not> isIncomplete e" for m0 e
    using that by (intro steps.reject [where X = "\<lambda>m. ()"] steps.nil)
  show ?thesis
  proof (cases "partReply env p 0")
    case ReadThrows
    with assms(1) have "m' = m" "lg = [Rejected FsError ()]"
      by (simp_all add: settlePart_v1_def)
    with rj [of FsError m] show ?thesis by simp
  next
    case SendThrows
    obtain m1 tr1 where w: "atWait_v1 env m r (InFlight p 0) = (m1, tr1)"
      by (cases "atWait_v1 env m r (InFlight p 0)") auto
    from SendThrows assms(1) w have "m' = m1" "lg = map Event tr1 @ [Rejected S3Error ()]"
      by (simp_all add: settlePart_v1_def)
    moreover have "steps1 env r fs P m (map Event tr1) m1"
      using w by (rule steps_wait1)
    ultimately show ?thesis using rj [of S3Error m1] by (auto intro: steps_append)
  next
    case (PartReply etag)
    obtain m1 tr1 where w: "atWait_v1 env m r (InFlight p 0) = (m1, tr1)"
      by (cases "atWait_v1 env m r (InFlight p 0)") auto
    have s1: "steps1 env r fs P m (map Event tr1) m1"
      using w by (rule steps_wait1)
    show ?thesis
    proof (cases "truthy etag")
      case False
      with PartReply assms(1) w
      have "m' = m1" "lg = map Event tr1 @ [Rejected (PartFailed p) ()]"
        by (auto simp: settlePart_v1_def truthy_def split: option.splits)
      then show ?thesis using s1 rj [of "PartFailed p" m1] by (auto intro: steps_append)
    next
      case True
      then obtain e where e: "etag = Some e" "e \<noteq> []"
        by (auto simp: truthy_def split: option.splits)
      obtain m2 tr2 where s: "storePart m1 r p e fs = (m2, tr2)"
        by (cases "storePart m1 r p e fs") auto
      from e PartReply assms(1) w s have "m' = m2" "lg = map Event tr1 @ map Event tr2"
        by (simp_all add: settlePart_v1_def)
      moreover have "steps1 env r fs P m1 (map Event tr2) m2"
        using assms(2) e(2) s by (rule steps_store1)
      ultimately show ?thesis using steps_append [OF s1] by simp
    qed
  qed
qed

lemma readParts_v1_steps:
  "readParts_v1 env m r ps fs = (m', tr) \<Longrightarrow> set ps \<subseteq> P \<Longrightarrow>
     steps1 env r fs P m (map Event tr) m'"
proof (induction ps arbitrary: m m' tr)
  case Nil
  then show ?case by (simp add: steps.nil)
next
  case (Cons p ps)
  obtain m1 tr1 where a: "readPart_v1 env m r p fs = (m1, tr1)"
    by (cases "readPart_v1 env m r p fs") auto
  obtain m2 tr2 where b: "readParts_v1 env m1 r ps fs = (m2, tr2)"
    by (cases "readParts_v1 env m1 r ps fs") auto
  from Cons.prems a b have "m' = m2" "tr = tr1 @ tr2" by simp_all
  moreover have "steps1 env r fs P m (map Event tr1) m1"
    using a Cons.prems(2) by (auto intro: readPart_v1_steps)
  moreover have "steps1 env r fs P m1 (map Event tr2) m2"
    using Cons.IH [OF b] Cons.prems(2) by simp
  ultimately show ?case using steps_append by fastforce
qed

lemma settleParts_v1_steps:
  "settleParts_v1 env m r ps fs = (m', lg) \<Longrightarrow> set ps \<subseteq> P \<Longrightarrow>
     steps1 env r fs P m lg m'"
proof (induction ps arbitrary: m m' lg)
  case Nil
  then show ?case by (simp add: steps.nil)
next
  case (Cons p ps)
  obtain m1 l1 where a: "settlePart_v1 env m r p fs = (m1, l1)"
    by (cases "settlePart_v1 env m r p fs") auto
  obtain m2 l2 where b: "settleParts_v1 env m1 r ps fs = (m2, l2)"
    by (cases "settleParts_v1 env m1 r ps fs") auto
  from Cons.prems a b have "m' = m2" "lg = l1 @ l2" by simp_all
  moreover have "steps1 env r fs P m l1 m1"
    using a Cons.prems(2) by (auto intro: settlePart_v1_steps)
  moreover have "steps1 env r fs P m1 l2 m2"
    using Cons.IH [OF b] Cons.prems(2) by simp
  ultimately show ?case using steps_append by fastforce
qed

lemma runTasks_v1_steps:
  assumes "runTasks_v1 env m r ps fs = (m', lg)"
  shows "steps1 env r fs (set ps) m lg m'"
proof -
  obtain m1 tr1 where a: "readParts_v1 env m r ps fs = (m1, tr1)"
    by (cases "readParts_v1 env m r ps fs") auto
  obtain m2 l2 where b: "settleParts_v1 env m1 r ps fs = (m2, l2)"
    by (cases "settleParts_v1 env m1 r ps fs") auto
  from assms a b have "m' = m2" "lg = map Event tr1 @ l2"
    by (simp_all add: runTasks_v1_def)
  moreover have "steps1 env r fs (set ps) m (map Event tr1) m1"
    using a by (rule readParts_v1_steps) simp
  moreover have "steps1 env r fs (set ps) m1 l2 m2"
    using b by (rule settleParts_v1_steps) simp
  ultimately show ?thesis by (auto intro: steps_append)
qed

lemma abortUpload_v1_nextPartNumber:
  "abortUpload_v1 env m b k = (res, m', tr) \<Longrightarrow>
     nextPartNumber (objects m' x) = nextPartNumber (objects m x)"
  by (auto simp: abortUpload_v1_def Let_def split: option.splits reply.splits)

lemma deliver_v1_nextPartNumber:
  "deliver_v1 env m b k c = (m', tr) \<Longrightarrow>
     nextPartNumber (objects m' x) = nextPartNumber (objects m x)"
  by (cases c)
     (auto simp: deliver_v1_def pauseUpload_nextPartNumber split: prod.splits
           dest: abortUpload_v1_nextPartNumber)

lemma atWait_v1_nextPartNumber:
  "atWait_v1 env m r a = (m', tr) \<Longrightarrow>
     nextPartNumber (objects m' x) = nextPartNumber (objects m x)"
  unfolding atWait_v1_def by (rule deliver_v1_nextPartNumber)

lemma runTasks_v1_nextPartNumber:
  "runTasks_v1 env m r ps fs = (m', lg) \<Longrightarrow>
     nextPartNumber (objects m' x) = nextPartNumber (objects m x)"
  by (drule runTasks_v1_steps, erule steps_nextPartNumber) (rule atWait_v1_nextPartNumber)

text \<open>
  The loop \<open>while (state.nextPartNumber <= totalParts && !state.isPaused)\<close>; its inner
  \<open>for\<close> takes the next part numbers at the cursor, up to three, and moves the cursor
  behind them.
\<close>

function uploadLoop_v1 ::
  "env \<Rightarrow> UploadState_v1 Manager \<Rightarrow> ref \<Rightarrow> nat \<Rightarrow> nat
     \<Rightarrow> UploadState_v1 Manager \<times> unit item list" where
  "uploadLoop_v1 env m r fs tp =
     (if nextPartNumber (objects m r) \<le> tp \<and> \<not> isPaused (objects m r) then
        (let n = nextPartNumber (objects m r);
             parts = [n..<min (n + MAX_CONCURRENT_UPLOADS) (Suc tp)];
             m1 = modify m r (\<lambda>s. s\<lparr>nextPartNumber := n + length parts\<rparr>)
         in case runTasks_v1 env m1 r parts fs of
              (m2, lg) \<Rightarrow>
                if rejection lg \<noteq> None then (m2, lg)
                else (case uploadLoop_v1 env m2 r fs tp of
                        (m3, lg') \<Rightarrow> (m3, lg @ lg')))
      else (m, []))"
  by pat_completeness auto
termination
proof (relation "measure (\<lambda>(env, m, r, fs, tp). Suc tp - nextPartNumber (objects m r))",
       goal_cases)
  case 1
  show ?case by simp
next
  case (2 env m r fs tp n parts m1 m2 lg)
  have "nextPartNumber (objects m1 r) = n + length parts"
    using 2 by (simp add: modify_def)
  moreover have "nextPartNumber (objects m2 r) = nextPartNumber (objects m1 r)"
    using 2 runTasks_v1_nextPartNumber [of env m1 r parts fs m2 lg r] by simp
  moreover have "0 < length parts"
    using 2 by (simp add: MAX_CONCURRENT_UPLOADS_def)
  ultimately have lt: "nextPartNumber (objects m r) < nextPartNumber (objects m2 r)"
    using 2 by linarith
  have le: "nextPartNumber (objects m r) \<le> tp"
    using 2 by simp
  show ?case using lt le by simp
qed

declare uploadLoop_v1.simps [simp del]

definition initiateMultipartUpload_v1 ::
  "env \<Rightarrow> string \<Rightarrow> string \<Rightarrow> string \<Rightarrow> nat \<Rightarrow> (error + UploadState_v1) \<times> event list" where
  "initiateMultipartUpload_v1 env b k fp fs =
     (let ev = [CreateMultipartUpload b k]
      in case createReply env of
           Throws \<Rightarrow> (Inl S3Error, ev)
         | Reply None \<Rightarrow> (Inl NoUploadId, ev)
         | Reply (Some uid) \<Rightarrow>
             if uid = [] then (Inl NoUploadId, ev)
             else (Inr \<lparr>uploadId = uid, bucket = b, key = k, filePath = fp, fileSize = fs,
                         uploadedParts = [], nextPartNumber = 1, isPaused = False\<rparr>, ev))"

definition resumeMultipartUpload_v1 ::
  "env \<Rightarrow> UploadState_v1 Manager \<Rightarrow> string \<Rightarrow> string \<Rightarrow> string \<Rightarrow> nat \<Rightarrow> string option
     \<Rightarrow> (error + UploadState_v1) \<times> event list" where
  "resumeMultipartUpload_v1 env m b k fp fs uid =
     (let existingState = getUploadState m b k
      in case finalUploadId uid (map_option uploadId existingState) of
           None \<Rightarrow> (Inl NoResumeId, [])
         | Some fid \<Rightarrow>
             if fid = [] then (Inl NoResumeId, [])
             else
               (let ev = [ListParts b k fid]
                in case listReply env of
                     Throws \<Rightarrow> (Inl S3Error, ev)
                   | Reply parts \<Rightarrow>
                       (let ps = (case parts of None \<Rightarrow> [] | Some ps \<Rightarrow> ps)
                        in (Inr \<lparr>uploadId = fid, bucket = b, key = k, filePath = fp,
                                  fileSize = fs, uploadedParts = ps,
                                  nextPartNumber = length ps + 1, isPaused = False\<rparr>, ev))))"

definition multipartUpload_v1 ::
  "env \<Rightarrow> UploadState_v1 Manager \<Rightarrow> string \<Rightarrow> string \<Rightarrow> string \<Rightarrow> nat \<Rightarrow> string option
     \<Rightarrow> (error + unit) \<times> UploadState_v1 Manager \<times> event list" where
  "multipartUpload_v1 env m b k fp fs resumeUploadId =
     (let sk = stateKey b k
      in case (if truthy resumeUploadId \<or> uploadStates m sk \<noteq> None
               then resumeMultipartUpload_v1 env m b k fp fs resumeUploadId
               else initiateMultipartUpload_v1 env b k fp fs) of
           (Inl e, tr0) \<Rightarrow> (Inl e, m, tr0 @ [failedEvent fp fs])
         | (Inr st, tr0) \<Rightarrow>
             (let r = nextRef m;
                  m1 = m\<lparr>objects := (objects m)(r := st), nextRef := Suc r,
                         uploadStates := (uploadStates m)(sk \<mapsto> r)\<rparr>;
                  tp = calcTotalParts fs
              in case openReply env of
                   Throws \<Rightarrow> (Inl FsError, m1, tr0 @ [failedEvent fp fs])
                 | Reply _ \<Rightarrow>
                     (case uploadLoop_v1 env m1 r fs tp of
                        (m2, lg) \<Rightarrow>
                          (case rejection lg of
                             Some (e, u) \<Rightarrow>
                               (Inl e, m2, tr0 @ untilRejection lg @ [failedEvent fp fs]
                                             @ afterRejection lg)
                           | None \<Rightarrow>
                               (let tr = events lg;
                                    n = length (uploadedParts (objects m2 r))
                                in if isPaused (objects m2 r)
                                   then (Inr (), m2, tr0 @ tr @ [pausedEvent fp fs n tp])
                                   else
                                     (case completeMultipartUpload env (objects m2 r) of
                                        (Inl e, trc) \<Rightarrow>
                                          (Inl e, m2, tr0 @ tr @ trc @ [failedEvent fp fs])
                                      | (Inr u, trc) \<Rightarrow>
                                          (Inr (),
                                           m2\<lparr>uploadStates := (uploadStates m2)(sk := None)\<rparr>,
                                           tr0 @ tr @ trc @ [completedEvent fp fs tp])))))))"

definition uploadFile_v1 ::
  "env \<Rightarrow> UploadState_v1 Manager \<Rightarrow> string \<Rightarrow> string \<Rightarrow> string
     \<Rightarrow> (error + unit) \<times> UploadState_v1 Manager \<times> event list" where
  "uploadFile_v1 env m b k fp =
     (case statReply env of
        Throws \<Rightarrow> (Inl FsError, m, [])
      | Reply fs \<Rightarrow>
          if fs < MULTIPART_THRESHOLD
          then (case simpleUpload env b k fp fs of (res, tr) \<Rightarrow> (res, m, tr))
          else multipartUpload_v1 env m b k fp fs None)"

definition resumeUpload_v1 ::
  "env \<Rightarrow> UploadState_v1 Manager \<Rightarrow> string \<Rightarrow> string
     \<Rightarrow> (error + unit) \<times> UploadState_v1 Manager \<times> event list" where
  "resumeUpload_v1 env m b k =
     (case uploadStates m (stateKey b k) of
        None \<Rightarrow> (Inl (NoPausedUpload k), m, [])
      | Some r \<Rightarrow>
          (let m1 = modify m r (\<lambda>s. s\<lparr>isPaused := False\<rparr>);
               st = objects m1 r
           in multipartUpload_v1 env m1 (bucket st) (key st) (filePath st) (fileSize st)
                (Some (uploadId st))))"

section \<open>Concrete inputs\<close>

text \<open>A manager with nothing registered, and an environment in which every call succeeds.\<close>

definition blankState_v1 :: UploadState_v1 where
  "blankState_v1 = \<lparr>uploadId = [], bucket = [], key = [], filePath = [], fileSize = 0,
                     uploadedParts = [], nextPartNumber = 0, isPaused = False\<rparr>"

definition blankState :: UploadState where
  "blankState = \<lparr>uploadId = [], bucket = [], key = [], filePath = [], fileSize = 0,
                  uploadedParts = [], nextPartNumber = 0, isPaused = False,
                  isAborted = False\<rparr>"

definition emptyManager :: "'st \<Rightarrow> 'st Manager" where
  "emptyManager d = \<lparr>objects = (\<lambda>_. d), nextRef = 0, uploadStates = Map.empty\<rparr>"

definition okEnv :: "nat \<Rightarrow> env" where
  "okEnv n = \<lparr>statReply = Reply n, readFileReply = Reply (), putReply = Reply (),
               createReply = Reply (Some ''id1''), listReply = Reply (Some []),
               openReply = Reply (), partReply = (\<lambda>p a. PartReply (Some ''etag'')),
               completeReply = Reply (), abortReply = Reply (), caller = (\<lambda>a. NoCall)\<rparr>"

text \<open>A manager holding one transfer, registered under its own bucket and key.\<close>

definition oneTransfer :: "'a UploadState_v1_scheme \<Rightarrow> ('a UploadState_v1_scheme) Manager" where
  "oneTransfer st = \<lparr>objects = (\<lambda>_. st), nextRef = 1,
                      uploadStates = [stateKey (bucket st) (key st) \<mapsto> 0]\<rparr>"

text \<open>
  A transfer of five parts of which parts 2 and 4 are stored, paused; and the object store
  listing just these two parts.
\<close>

definition gapState_v1 :: UploadState_v1 where
  "gapState_v1 = \<lparr>uploadId = ''id1'', bucket = ''photos'', key = ''a.bin'',
                   filePath = ''./a.bin'', fileSize = 5 * PART_SIZE,
                   uploadedParts = [\<lparr>PartNumber = 2, ETag = ''e2''\<rparr>,
                                    \<lparr>PartNumber = 4, ETag = ''e4''\<rparr>],
                   nextPartNumber = 6, isPaused = True\<rparr>"

definition gapState :: UploadState where
  "gapState = \<lparr>uploadId = ''id1'', bucket = ''photos'', key = ''a.bin'',
                filePath = ''./a.bin'', fileSize = 5 * PART_SIZE,
                uploadedParts = [\<lparr>PartNumber = 2, ETag = ''e2''\<rparr>,
                                 \<lparr>PartNumber = 4, ETag = ''e4''\<rparr>],
                nextPartNumber = 6, isPaused = True, isAborted = False\<rparr>"

definition gapEnv :: env where
  "gapEnv = (okEnv 0)\<lparr>listReply := Reply (Some [\<lparr>PartNumber = 2, ETag = ''e2''\<rparr>,
                                                \<lparr>PartNumber = 4, ETag = ''e4''\<rparr>])\<rparr>"

text \<open>A transfer of two parts, both stored, paused; and the object store listing both.\<close>

definition fullState_v1 :: UploadState_v1 where
  "fullState_v1 = \<lparr>uploadId = ''id1'', bucket = ''photos'', key = ''a.bin'',
                   filePath = ''./a.bin'', fileSize = 2 * PART_SIZE,
                   uploadedParts = [\<lparr>PartNumber = 1, ETag = ''e1''\<rparr>,
                                    \<lparr>PartNumber = 2, ETag = ''e2''\<rparr>],
                   nextPartNumber = 3, isPaused = True\<rparr>"

definition fullState :: UploadState where
  "fullState = \<lparr>uploadId = ''id1'', bucket = ''photos'', key = ''a.bin'',
                filePath = ''./a.bin'', fileSize = 2 * PART_SIZE,
                uploadedParts = [\<lparr>PartNumber = 1, ETag = ''e1''\<rparr>,
                                 \<lparr>PartNumber = 2, ETag = ''e2''\<rparr>],
                nextPartNumber = 3, isPaused = True, isAborted = False\<rparr>"

definition fullEnv :: env where
  "fullEnv = (okEnv 0)\<lparr>listReply := Reply (Some [\<lparr>PartNumber = 1, ETag = ''e1''\<rparr>,
                                                 \<lparr>PartNumber = 2, ETag = ''e2''\<rparr>])\<rparr>"

text \<open>The commands sent to the object store, among the events of a run.\<close>

fun isCommand :: "event \<Rightarrow> bool" where
  "isCommand (Progress p) = False"
| "isCommand (Delay d) = False"
| "isCommand e = True"

text \<open>The part numbers of the part uploads of a run, in the order they are sent.\<close>

fun partsSent :: "event list \<Rightarrow> nat list" where
  "partsSent [] = []"
| "partsSent (UploadPartCmd b k u n off len # es) = n # partsSent es"
| "partsSent (e # es) = partsSent es"

text \<open>The back-off timers of a run, in milliseconds.\<close>

fun delays :: "event list \<Rightarrow> nat list" where
  "delays [] = []"
| "delays (Delay d # tr) = d # delays tr"
| "delays (e # tr) = delays tr"

text \<open>The equations that evaluate a run on a concrete input.\<close>

lemmas input_defs = oneTransfer_def gapState_def gapState_v1_def gapEnv_def okEnv_def
  emptyManager_def blankState_def blankState_v1_def
  fullState_def fullState_v1_def fullEnv_def

lemmas run_defs = resumeUpload_def multipartUpload_def resumeMultipartUpload_def
  initiateMultipartUpload_def uploadFile_def
  uploadLoop.simps runTasks.simps uploadBatch_def readPart_def settlePart_def catchPart_def
  atWait_def deliver_def abortUpload_def findNextPart_def collectParts.simps catchBlock_def

lemmas run_v1_defs = resumeUpload_v1_def multipartUpload_v1_def resumeMultipartUpload_v1_def
  initiateMultipartUpload_v1_def uploadFile_v1_def
  uploadLoop_v1.simps runTasks_v1_def readPart_v1_def settlePart_v1_def atWait_v1_def
  deliver_v1_def abortUpload_v1_def

lemmas shared_defs = finalUploadId_def truthy_def stateKey_def getUploadState_def modify_def
  pauseUpload_def storePart_def completeMultipartUpload_def simpleUpload_def
  calcTotalParts_def PART_SIZE_def MAX_CONCURRENT_UPLOADS_def MULTIPART_THRESHOLD_def
  completedEvent_def failedEvent_def pausedEvent_def Let_def upt_conv_Cons

section \<open>Rules for reasoning about logs, batches and loops\<close>

lemma events_append [simp]: "events (xs @ ys) = events xs @ events ys"
  by (induction xs rule: events.induct) simp_all

lemma events_map_Event [simp]: "events (map Event tr) = tr"
  by (induction tr) simp_all

lemma rejection_append:
  "rejection (xs @ ys) = (case rejection xs of None \<Rightarrow> rejection ys | Some x \<Rightarrow> Some x)"
  by (induction xs rule: rejection.induct) simp_all

lemma rejection_map_Event [simp]: "rejection (map Event tr) = None"
  by (induction tr) simp_all

lemma untilRejection_append:
  "untilRejection (xs @ ys) =
     (if rejection xs = None then events xs @ untilRejection ys else untilRejection xs)"
  by (induction xs rule: rejection.induct) simp_all

lemma afterRejection_append:
  "afterRejection (xs @ ys) =
     (if rejection xs = None then afterRejection ys else afterRejection xs @ events ys)"
  by (induction xs rule: rejection.induct) simp_all

lemma events_split: "events lg = untilRejection lg @ afterRejection lg"
  by (induction lg rule: rejection.induct) simp_all

lemma no_rejection:
  "rejection lg = None \<Longrightarrow> untilRejection lg = events lg \<and> afterRejection lg = []"
  by (induction lg rule: rejection.induct) simp_all

lemma rejection_in_log: "rejection lg = Some (e, x) \<Longrightarrow> Rejected e x \<in> set lg"
  by (induction lg rule: rejection.induct) auto

text \<open>
  The loop of \<open>multipartUpload\<close> moves the cursor and runs a batch, again and again:
  \<open>batches\<close> relates the manager before, the log and the manager after a sequence of
  batches.
\<close>

inductive batches ::
  "(('a UploadState_v1_scheme) Manager \<Rightarrow> await_point
       \<Rightarrow> ('a UploadState_v1_scheme) Manager \<times> event list)
     \<Rightarrow> (('a UploadState_v1_scheme) Manager \<Rightarrow> 'x) \<Rightarrow> ref \<Rightarrow> nat \<Rightarrow> nat set
     \<Rightarrow> ('a UploadState_v1_scheme) Manager \<Rightarrow> 'x item list
     \<Rightarrow> ('a UploadState_v1_scheme) Manager \<Rightarrow> bool"
  for C X r fs P where
    none: "batches C X r fs P m [] m"
  | batch: "steps C X r fs P (modify m r (\<lambda>s. s\<lparr>nextPartNumber := n\<rparr>)) l m1
            \<Longrightarrow> batches C X r fs P m1 l' m'
            \<Longrightarrow> batches C X r fs P m (l @ l') m'"

lemma batches_one:
  assumes "steps C X r fs P (modify m r (\<lambda>s. s\<lparr>nextPartNumber := n\<rparr>)) l m1"
  shows "batches C X r fs P m l m1"
  using batches.batch [OF assms batches.none] by simp

text \<open>A run of the loop as a derivation, one case for each way the loop body can end.\<close>

lemma batch_advances:
  assumes "findNextPart (set (map PartNumber (uploadedParts (objects m r))))
             (nextPartNumber (objects m r)) tp = Some n"
    and "parts = collectParts (set (map PartNumber (uploadedParts (objects m r)))) tp (n + 1) [n]"
    and "uploadBatch env (modify m r (\<lambda>s. s\<lparr>nextPartNumber := last parts + 1\<rparr>)) r parts fs
           = (m2, lg)"
  shows "nextPartNumber (objects m r) \<le> tp
       \<and> nextPartNumber (objects m r) < nextPartNumber (objects m2 r)"
proof -
  have f: "nextPartNumber (objects m r) \<le> n \<and> n \<le> tp"
    using assms(1) findNextPart_Some by blast
  have c: "n \<le> last parts"
    using collectParts_last [of "[n]" "n + 1"] assms(2) by simp
  have "nextPartNumber (objects m2 r) = last parts + 1"
    using uploadBatch_nextPartNumber [OF assms(3), of r] by (simp add: modify_def)
  with f c show ?thesis by linarith
qed

lemma uploadLoop_induct [consumes 1, case_names stop none rejected finished again]:
  assumes run: "uploadLoop env m r fs tp = (m', lg)"
    and stop: "\<And>m. isPaused (objects m r) \<or> isAborted (objects m r) \<Longrightarrow> Q m m []"
    and none: "\<And>m. \<not> (isPaused (objects m r) \<or> isAborted (objects m r)) \<Longrightarrow>
        findNextPart (set (map PartNumber (uploadedParts (objects m r))))
          (nextPartNumber (objects m r)) tp = None \<Longrightarrow> Q m m []"
    and rejected: "\<And>m n parts m1 m2 lg.
        \<not> (isPaused (objects m r) \<or> isAborted (objects m r)) \<Longrightarrow>
        findNextPart (set (map PartNumber (uploadedParts (objects m r))))
          (nextPartNumber (objects m r)) tp = Some n \<Longrightarrow>
        parts = collectParts (set (map PartNumber (uploadedParts (objects m r)))) tp (n + 1) [n] \<Longrightarrow>
        m1 = modify m r (\<lambda>s. s\<lparr>nextPartNumber := last parts + 1\<rparr>) \<Longrightarrow>
        uploadBatch env m1 r parts fs = (m2, lg) \<Longrightarrow>
        rejection lg \<noteq> None \<Longrightarrow> Q m m2 lg"
    and finished: "\<And>m n parts m1 m2 lg.
        \<not> (isPaused (objects m r) \<or> isAborted (objects m r)) \<Longrightarrow>
        findNextPart (set (map PartNumber (uploadedParts (objects m r))))
          (nextPartNumber (objects m r)) tp = Some n \<Longrightarrow>
        parts = collectParts (set (map PartNumber (uploadedParts (objects m r)))) tp (n + 1) [n] \<Longrightarrow>
        m1 = modify m r (\<lambda>s. s\<lparr>nextPartNumber := last parts + 1\<rparr>) \<Longrightarrow>
        uploadBatch env m1 r parts fs = (m2, lg) \<Longrightarrow>
        rejection lg = None \<Longrightarrow>
        length (uploadedParts (objects m2 r)) = tp \<Longrightarrow> Q m m2 lg"
    and again: "\<And>m n parts m1 m2 lg m3 lg'.
        \<not> (isPaused (objects m r) \<or> isAborted (objects m r)) \<Longrightarrow>
        findNextPart (set (map PartNumber (uploadedParts (objects m r))))
          (nextPartNumber (objects m r)) tp = Some n \<Longrightarrow>
        parts = collectParts (set (map PartNumber (uploadedParts (objects m r)))) tp (n + 1) [n] \<Longrightarrow>
        m1 = modify m r (\<lambda>s. s\<lparr>nextPartNumber := last parts + 1\<rparr>) \<Longrightarrow>
        uploadBatch env m1 r parts fs = (m2, lg) \<Longrightarrow>
        rejection lg = None \<Longrightarrow>
        length (uploadedParts (objects m2 r)) \<noteq> tp \<Longrightarrow>
        uploadLoop env m2 r fs tp = (m3, lg') \<Longrightarrow>
        Q m2 m3 lg' \<Longrightarrow> Q m m3 (lg @ lg')"
  shows "Q m m' lg"
  using run
proof (induction "Suc tp - nextPartNumber (objects m r)" arbitrary: m m' lg
       rule: less_induct)
  case less
  let ?st = "objects m r"
  let ?U = "set (map PartNumber (uploadedParts ?st))"
  show ?case
  proof (cases "isPaused ?st \<or> isAborted ?st")
    case True
    from stop [OF True] True less.prems show ?thesis
      by (simp add: uploadLoop.simps [of env m r fs tp])
  next
    case nf: False
    show ?thesis
    proof (cases "findNextPart ?U (nextPartNumber ?st) tp")
      case None
      from none [OF nf None] nf None less.prems show ?thesis
        by (simp add: uploadLoop.simps [of env m r fs tp])
    next
      case (Some n)
      define parts where "parts = collectParts ?U tp (n + 1) [n]"
      define m1 where "m1 = modify m r (\<lambda>s. s\<lparr>nextPartNumber := last parts + 1\<rparr>)"
      have ne: "collectParts ?U tp (n + 1) [n] \<noteq> []"
        using collectParts_last [of "[n]" "n + 1" ?U tp] by simp
      have m1: "modify (modify m r (\<lambda>s. s\<lparr>nextPartNumber := n + 1\<rparr>)) r
                  (\<lambda>s. s\<lparr>nextPartNumber := last (collectParts ?U tp (n + 1) [n]) + 1\<rparr>) = m1"
        by (simp add: m1_def parts_def modify_def)
      obtain m2 lg2 where b: "uploadBatch env m1 r parts fs = (m2, lg2)"
        by (cases "uploadBatch env m1 r parts fs") auto
      have "uploadLoop env m r fs tp =
          (case uploadBatch env m1 r (collectParts ?U tp (n + 1) [n]) fs of
             (m2, lg) \<Rightarrow>
               if rejection lg \<noteq> None then (m2, lg)
               else if length (uploadedParts (objects m2 r)) = tp then (m2, lg)
               else (case uploadLoop env m2 r fs tp of (m3, lg') \<Rightarrow> (m3, lg @ lg')))"
        by (subst uploadLoop.simps) (simp only: nf Some ne m1 Let_def if_False if_True
              option.case length_greater_0_conv not_False_eq_True)
      then have unfold: "uploadLoop env m r fs tp =
          (case uploadBatch env m1 r parts fs of
             (m2, lg) \<Rightarrow>
               if rejection lg \<noteq> None then (m2, lg)
               else if length (uploadedParts (objects m2 r)) = tp then (m2, lg)
               else (case uploadLoop env m2 r fs tp of (m3, lg') \<Rightarrow> (m3, lg @ lg')))"
        by (simp only: parts_def)
      show ?thesis
      proof (cases "rejection lg2 = None")
        case False
        from rejected [OF nf Some parts_def m1_def b False] b False less.prems unfold
        show ?thesis by simp
      next
        case nr: True
        show ?thesis
        proof (cases "length (uploadedParts (objects m2 r)) = tp")
          case True
          from finished [OF nf Some parts_def m1_def b nr True] b nr True less.prems unfold
          show ?thesis by simp
        next
          case False
          obtain m3 lg3 where l: "uploadLoop env m2 r fs tp = (m3, lg3)"
            by (cases "uploadLoop env m2 r fs tp") auto
          have "Suc tp - nextPartNumber (objects m2 r) < Suc tp - nextPartNumber (objects m r)"
            using batch_advances [OF Some parts_def b [unfolded m1_def]] by linarith
          from less.hyps [OF this l] have "Q m2 m3 lg3" .
          from again [OF nf Some parts_def m1_def b nr False l this] b nr False l less.prems unfold
          show ?thesis by simp
        qed
      qed
    qed
  qed
qed

lemma batch_v1_advances:
  assumes "nextPartNumber (objects m r) \<le> tp"
    and "parts = [nextPartNumber (objects m r)..<
                    min (nextPartNumber (objects m r) + MAX_CONCURRENT_UPLOADS) (Suc tp)]"
    and "runTasks_v1 env
           (modify m r (\<lambda>s. s\<lparr>nextPartNumber := nextPartNumber (objects m r) + length parts\<rparr>))
           r parts fs = (m2, lg)"
  shows "nextPartNumber (objects m r) < nextPartNumber (objects m2 r)"
proof -
  have "0 < length parts"
    using assms(1,2) by (simp add: MAX_CONCURRENT_UPLOADS_def)
  moreover have "nextPartNumber (objects m2 r) = nextPartNumber (objects m r) + length parts"
    using runTasks_v1_nextPartNumber [OF assms(3), of r] by (simp add: modify_def)
  ultimately show ?thesis by linarith
qed

lemma uploadLoop_v1_induct [consumes 1, case_names stop rejected again]:
  assumes run: "uploadLoop_v1 env m r fs tp = (m', lg)"
    and stop: "\<And>m. \<not> (nextPartNumber (objects m r) \<le> tp \<and> \<not> isPaused (objects m r)) \<Longrightarrow>
        Q m m []"
    and rejected: "\<And>m parts m1 m2 lg.
        nextPartNumber (objects m r) \<le> tp \<and> \<not> isPaused (objects m r) \<Longrightarrow>
        parts = [nextPartNumber (objects m r)..<
                   min (nextPartNumber (objects m r) + MAX_CONCURRENT_UPLOADS) (Suc tp)] \<Longrightarrow>
        m1 = modify m r
               (\<lambda>s. s\<lparr>nextPartNumber := nextPartNumber (objects m r) + length parts\<rparr>) \<Longrightarrow>
        runTasks_v1 env m1 r parts fs = (m2, lg) \<Longrightarrow>
        rejection lg \<noteq> None \<Longrightarrow> Q m m2 lg"
    and again: "\<And>m parts m1 m2 lg m3 lg'.
        nextPartNumber (objects m r) \<le> tp \<and> \<not> isPaused (objects m r) \<Longrightarrow>
        parts = [nextPartNumber (objects m r)..<
                   min (nextPartNumber (objects m r) + MAX_CONCURRENT_UPLOADS) (Suc tp)] \<Longrightarrow>
        m1 = modify m r
               (\<lambda>s. s\<lparr>nextPartNumber := nextPartNumber (objects m r) + length parts\<rparr>) \<Longrightarrow>
        runTasks_v1 env m1 r parts fs = (m2, lg) \<Longrightarrow>
        rejection lg = None \<Longrightarrow>
        uploadLoop_v1 env m2 r fs tp = (m3, lg') \<Longrightarrow>
        Q m2 m3 lg' \<Longrightarrow> Q m m3 (lg @ lg')"
  shows "Q m m' lg"
  using run
proof (induction "Suc tp - nextPartNumber (objects m r)" arbitrary: m m' lg
       rule: less_induct)
  case less
  let ?n = "nextPartNumber (objects m r)"
  show ?case
  proof (cases "?n \<le> tp \<and> \<not> isPaused (objects m r)")
    case False
    have "uploadLoop_v1 env m r fs tp = (m, [])"
      by (subst uploadLoop_v1.simps) (simp only: False if_False)
    with stop [OF False] less.prems show ?thesis by simp
  next
    case go: True
    define parts where "parts = [?n..<min (?n + MAX_CONCURRENT_UPLOADS) (Suc tp)]"
    define m1 where "m1 = modify m r (\<lambda>s. s\<lparr>nextPartNumber := ?n + length parts\<rparr>)"
    obtain m2 lg2 where b: "runTasks_v1 env m1 r parts fs = (m2, lg2)"
      by (cases "runTasks_v1 env m1 r parts fs") auto
    have "uploadLoop_v1 env m r fs tp =
        (case runTasks_v1 env
                (modify m r (\<lambda>s. s\<lparr>nextPartNumber :=
                   ?n + length [?n..<min (?n + MAX_CONCURRENT_UPLOADS) (Suc tp)]\<rparr>))
                r [?n..<min (?n + MAX_CONCURRENT_UPLOADS) (Suc tp)] fs of
           (m2, lg) \<Rightarrow>
             if rejection lg \<noteq> None then (m2, lg)
             else (case uploadLoop_v1 env m2 r fs tp of (m3, lg') \<Rightarrow> (m3, lg @ lg')))"
      by (subst uploadLoop_v1.simps)
         (simp only: go Let_def if_True not_False_eq_True simp_thms)
    then have unfold: "uploadLoop_v1 env m r fs tp =
        (case runTasks_v1 env m1 r parts fs of
           (m2, lg) \<Rightarrow>
             if rejection lg \<noteq> None then (m2, lg)
             else (case uploadLoop_v1 env m2 r fs tp of (m3, lg') \<Rightarrow> (m3, lg @ lg')))"
      by (simp only: m1_def parts_def)
    show ?thesis
    proof (cases "rejection lg2 = None")
      case False
      from rejected [OF go parts_def m1_def b False] b False less.prems unfold
      show ?thesis by simp
    next
      case nr: True
      obtain m3 lg3 where l: "uploadLoop_v1 env m2 r fs tp = (m3, lg3)"
        by (cases "uploadLoop_v1 env m2 r fs tp") auto
      have "?n < nextPartNumber (objects m2 r)"
        using go batch_v1_advances [OF _ parts_def b [unfolded m1_def]] by simp
      with go have "Suc tp - nextPartNumber (objects m2 r) < Suc tp - ?n"
        by linarith
      from less.hyps [OF this l] have "Q m2 m3 lg3" .
      from again [OF go parts_def m1_def b nr l this] b nr l less.prems unfold
      show ?thesis by simp
    qed
  qed
qed

text \<open>Both loops are sequences of batches.\<close>

lemma uploadLoop_batches:
  "uploadLoop env m r fs tp = (m', lg) \<Longrightarrow>
     batches (\<lambda>m. atWait env m r) (\<lambda>m. isAborted (objects m r)) r fs UNIV m lg m'"
proof (induction rule: uploadLoop_induct)
  case (stop m)
  show ?case by (rule batches.none)
next
  case (none m)
  show ?case by (rule batches.none)
next
  case (rejected m n parts m1 m2 lg)
  from uploadBatch_steps [OF rejected(5)] show ?case
    unfolding rejected(4) by (intro batches_one steps_mono [where Q = UNIV]) simp_all
next
  case (finished m n parts m1 m2 lg)
  from uploadBatch_steps [OF finished(5)] show ?case
    unfolding finished(4) by (intro batches_one steps_mono [where Q = UNIV]) simp_all
next
  case (again m n parts m1 m2 lg m3 lg')
  from uploadBatch_steps [OF again(5)]
  have "steps2 env r fs UNIV (modify m r (\<lambda>s. s\<lparr>nextPartNumber := last parts + 1\<rparr>)) lg m2"
    unfolding again(4) by (rule steps_mono) simp
  then show ?case using again(9) by (rule batches.batch)
qed

lemma uploadLoop_v1_batches:
  "uploadLoop_v1 env m r fs tp = (m', lg) \<Longrightarrow>
     batches (\<lambda>m. atWait_v1 env m r) (\<lambda>m. ()) r fs UNIV m lg m'"
proof (induction rule: uploadLoop_v1_induct)
  case (stop m)
  show ?case by (rule batches.none)
next
  case (rejected m parts m1 m2 lg)
  from runTasks_v1_steps [OF rejected(4)] show ?case
    unfolding rejected(3) by (intro batches_one steps_mono [where Q = UNIV]) simp_all
next
  case (again m parts m1 m2 lg m3 lg')
  from runTasks_v1_steps [OF again(4)]
  have "steps1 env r fs UNIV
          (modify m r (\<lambda>s. s\<lparr>nextPartNumber := nextPartNumber (objects m r) + length parts\<rparr>))
          lg m2"
    unfolding again(3) by (rule steps_mono) simp
  then show ?case using again(7) by (rule batches.batch)
qed

text \<open>
  A run of \<open>multipartUpload\<close>, one case for each way it can end. \<open>startState\<close> is the state
  it starts from, resumed or initiated, and \<open>registered\<close> the manager once that state is
  registered under the key.
\<close>

abbreviation startState ::
  "env \<Rightarrow> UploadState Manager \<Rightarrow> string \<Rightarrow> string \<Rightarrow> string \<Rightarrow> nat \<Rightarrow> string option
     \<Rightarrow> (error + UploadState) \<times> event list" where
  "startState env m b k fp fs rid \<equiv>
     (if truthy rid \<or> uploadStates m (stateKey b k) \<noteq> None
      then resumeMultipartUpload env m b k fp fs rid
      else initiateMultipartUpload env b k fp fs)"

abbreviation registered :: "'st Manager \<Rightarrow> string \<Rightarrow> 'st \<Rightarrow> 'st Manager" where
  "registered m sk st \<equiv>
     m\<lparr>objects := (objects m)(nextRef m := st), nextRef := Suc (nextRef m),
       uploadStates := (uploadStates m)(sk \<mapsto> nextRef m)\<rparr>"

lemma multipartUpload_cases
  [consumes 1, case_names initFailed openFailed rejected aborted paused incomplete
     completeFailed completed]:
  assumes run: "multipartUpload env m b k fp fs rid = (res, m', tr)"
  obtains
    (initFailed) e tr0 where
      "startState env m b k fp fs rid = (Inl e, tr0)"
      "res = Inl e" "m' = m" "tr = tr0 @ [failedEvent fp fs]"
  | (openFailed) st tr0 where
      "startState env m b k fp fs rid = (Inr st, tr0)" "openReply env = Throws"
      "(res, tr) = catchBlock (isAborted st) fp fs FsError tr0"
      "m' = registered m (stateKey b k) st"
  | (rejected) st tr0 m2 lg e ab where
      "startState env m b k fp fs rid = (Inr st, tr0)" "openReply env = Reply ()"
      "uploadLoop env (registered m (stateKey b k) st) (nextRef m) fs (calcTotalParts fs)
         = (m2, lg)"
      "rejection lg = Some (e, ab)"
      "res = (if ab then Inr () else Inl e)" "m' = m2"
      "tr = tr0 @ untilRejection lg @ (if ab then [] else [failedEvent fp fs])
              @ afterRejection lg"
  | (aborted) st tr0 m2 lg where
      "startState env m b k fp fs rid = (Inr st, tr0)" "openReply env = Reply ()"
      "uploadLoop env (registered m (stateKey b k) st) (nextRef m) fs (calcTotalParts fs)
         = (m2, lg)"
      "rejection lg = None" "isAborted (objects m2 (nextRef m))"
      "res = Inr ()" "m' = m2" "tr = tr0 @ events lg"
  | (paused) st tr0 m2 lg where
      "startState env m b k fp fs rid = (Inr st, tr0)" "openReply env = Reply ()"
      "uploadLoop env (registered m (stateKey b k) st) (nextRef m) fs (calcTotalParts fs)
         = (m2, lg)"
      "rejection lg = None" "\<not> isAborted (objects m2 (nextRef m))"
      "isPaused (objects m2 (nextRef m))"
      "res = Inr ()" "m' = m2"
      "tr = tr0 @ events lg @ [pausedEvent fp fs (length (uploadedParts (objects m2 (nextRef m))))
                                  (calcTotalParts fs)]"
  | (incomplete) st tr0 m2 lg where
      "startState env m b k fp fs rid = (Inr st, tr0)" "openReply env = Reply ()"
      "uploadLoop env (registered m (stateKey b k) st) (nextRef m) fs (calcTotalParts fs)
         = (m2, lg)"
      "rejection lg = None" "\<not> isAborted (objects m2 (nextRef m))"
      "\<not> isPaused (objects m2 (nextRef m))"
      "length (uploadedParts (objects m2 (nextRef m))) \<noteq> calcTotalParts fs"
      "res = Inl (Incomplete (length (uploadedParts (objects m2 (nextRef m))))
                    (calcTotalParts fs))"
      "m' = m2" "tr = tr0 @ events lg @ [failedEvent fp fs]"
  | (completeFailed) st tr0 m2 lg where
      "startState env m b k fp fs rid = (Inr st, tr0)" "openReply env = Reply ()"
      "uploadLoop env (registered m (stateKey b k) st) (nextRef m) fs (calcTotalParts fs)
         = (m2, lg)"
      "rejection lg = None" "\<not> isAborted (objects m2 (nextRef m))"
      "\<not> isPaused (objects m2 (nextRef m))"
      "length (uploadedParts (objects m2 (nextRef m))) = calcTotalParts fs"
      "completeReply env = Throws"
      "res = Inl S3Error" "m' = m2"
      "tr = tr0 @ events lg
              @ [CompleteMultipartUpload (bucket (objects m2 (nextRef m)))
                   (key (objects m2 (nextRef m))) (uploadId (objects m2 (nextRef m)))
                   (uploadedParts (objects m2 (nextRef m))),
                 failedEvent fp fs]"
  | (completed) st tr0 m2 lg where
      "startState env m b k fp fs rid = (Inr st, tr0)" "openReply env = Reply ()"
      "uploadLoop env (registered m (stateKey b k) st) (nextRef m) fs (calcTotalParts fs)
         = (m2, lg)"
      "rejection lg = None" "\<not> isAborted (objects m2 (nextRef m))"
      "\<not> isPaused (objects m2 (nextRef m))"
      "length (uploadedParts (objects m2 (nextRef m))) = calcTotalParts fs"
      "completeReply env = Reply ()"
      "res = Inr ()" "m' = m2\<lparr>uploadStates := (uploadStates m2)(stateKey b k := None)\<rparr>"
      "tr = tr0 @ events lg
              @ [CompleteMultipartUpload (bucket (objects m2 (nextRef m)))
                   (key (objects m2 (nextRef m))) (uploadId (objects m2 (nextRef m)))
                   (uploadedParts (objects m2 (nextRef m))),
                 completedEvent fp fs (calcTotalParts fs)]"
proof -
  obtain i0 tr0 where i: "startState env m b k fp fs rid = (i0, tr0)"
    by (cases "startState env m b k fp fs rid") auto
  note mu = run [unfolded multipartUpload_def Let_def i]
  show thesis
  proof (cases i0)
    case (Inl e)
    with mu have "res = Inl e" "m' = m" "tr = tr0 @ [failedEvent fp fs]" by simp_all
    with i Inl initFailed show thesis by simp
  next
    case (Inr st)
    note i' = i [unfolded Inr]
    note mu' = mu [unfolded Inr sum.case prod.case]
    show thesis
    proof (cases "openReply env")
      case Throws
      from mu' [unfolded Throws reply.case]
      have "(res, tr) = catchBlock (isAborted st) fp fs FsError tr0"
        and "m' = registered m (stateKey b k) st"
        by (auto split: prod.splits)
      with i' Throws openFailed show thesis by simp
    next
      case (Reply u)
      then have o: "openReply env = Reply ()" by simp
      obtain m2 lg where l:
        "uploadLoop env (registered m (stateKey b k) st) (nextRef m) fs (calcTotalParts fs)
           = (m2, lg)"
        by (cases "uploadLoop env (registered m (stateKey b k) st) (nextRef m) fs
                     (calcTotalParts fs)") auto
      note mu'' = mu' [unfolded Reply reply.case l prod.case]
      show thesis
      proof (cases "rejection lg")
        case (Some x)
        obtain e ab where x: "x = (e, ab)" by (cases x) auto
        from mu'' [unfolded Some x option.case prod.case]
        have "res = (if ab then Inr () else Inl e)" "m' = m2"
          "tr = tr0 @ untilRejection lg @ (if ab then [] else [failedEvent fp fs])
                  @ afterRejection lg"
          by (auto simp: catchBlock_def split: if_splits)
        with i' o l Some x rejected show thesis by simp
      next
        case None
        note fin = mu'' [unfolded None option.case]
        let ?s2 = "objects m2 (nextRef m)"
        show thesis
        proof (cases "isAborted ?s2")
          case True
          with fin have "res = Inr ()" "m' = m2" "tr = tr0 @ events lg" by auto
          with i' o l None True aborted show thesis by simp
        next
          case na: False
          show thesis
          proof (cases "isPaused ?s2")
            case True
            with fin na have "res = Inr ()" "m' = m2"
              "tr = tr0 @ events lg @ [pausedEvent fp fs (length (uploadedParts ?s2))
                                          (calcTotalParts fs)]"
              by auto
            with i' o l None na True paused show thesis by simp
          next
            case np: False
            show thesis
            proof (cases "length (uploadedParts ?s2) = calcTotalParts fs")
              case False
              with fin na np
              have "res = Inl (Incomplete (length (uploadedParts ?s2)) (calcTotalParts fs))"
                "m' = m2" "tr = tr0 @ events lg @ [failedEvent fp fs]"
                by (auto simp: catchBlock_def)
              with i' o l None na np False incomplete show thesis by simp
            next
              case len: True
              show thesis
              proof (cases "completeReply env")
                case Throws
                with fin na np len have "res = Inl S3Error" "m' = m2"
                  "tr = tr0 @ events lg
                     @ [CompleteMultipartUpload (bucket ?s2) (key ?s2) (uploadId ?s2)
                          (uploadedParts ?s2), failedEvent fp fs]"
                  by (auto simp: catchBlock_def completeMultipartUpload_def)
                with i' o l None na np len Throws completeFailed show thesis by simp
              next
                case (Reply v)
                with fin na np len have "res = Inr ()"
                  "m' = m2\<lparr>uploadStates := (uploadStates m2)(stateKey b k := None)\<rparr>"
                  "tr = tr0 @ events lg
                     @ [CompleteMultipartUpload (bucket ?s2) (key ?s2) (uploadId ?s2)
                          (uploadedParts ?s2), completedEvent fp fs (calcTotalParts fs)]"
                  by (auto simp: completeMultipartUpload_def)
                moreover have "completeReply env = Reply ()" using Reply by simp
                ultimately show thesis using i' o l None na np len completed by simp
              qed
            qed
          qed
        qed
      qed
    qed
  qed
qed

abbreviation startState_v1 ::
  "env \<Rightarrow> UploadState_v1 Manager \<Rightarrow> string \<Rightarrow> string \<Rightarrow> string \<Rightarrow> nat \<Rightarrow> string option
     \<Rightarrow> (error + UploadState_v1) \<times> event list" where
  "startState_v1 env m b k fp fs rid \<equiv>
     (if truthy rid \<or> uploadStates m (stateKey b k) \<noteq> None
      then resumeMultipartUpload_v1 env m b k fp fs rid
      else initiateMultipartUpload_v1 env b k fp fs)"

lemma multipartUpload_v1_cases
  [consumes 1, case_names initFailed openFailed rejected paused completeFailed completed]:
  assumes run: "multipartUpload_v1 env m b k fp fs rid = (res, m', tr)"
  obtains
    (initFailed) e tr0 where
      "startState_v1 env m b k fp fs rid = (Inl e, tr0)"
      "res = Inl e" "m' = m" "tr = tr0 @ [failedEvent fp fs]"
  | (openFailed) st tr0 where
      "startState_v1 env m b k fp fs rid = (Inr st, tr0)" "openReply env = Throws"
      "res = Inl FsError" "tr = tr0 @ [failedEvent fp fs]"
      "m' = registered m (stateKey b k) st"
  | (rejected) st tr0 m2 lg e where
      "startState_v1 env m b k fp fs rid = (Inr st, tr0)" "openReply env = Reply ()"
      "uploadLoop_v1 env (registered m (stateKey b k) st) (nextRef m) fs (calcTotalParts fs)
         = (m2, lg)"
      "rejection lg = Some (e, ())"
      "res = Inl e" "m' = m2"
      "tr = tr0 @ untilRejection lg @ [failedEvent fp fs] @ afterRejection lg"
  | (paused) st tr0 m2 lg where
      "startState_v1 env m b k fp fs rid = (Inr st, tr0)" "openReply env = Reply ()"
      "uploadLoop_v1 env (registered m (stateKey b k) st) (nextRef m) fs (calcTotalParts fs)
         = (m2, lg)"
      "rejection lg = None" "isPaused (objects m2 (nextRef m))"
      "res = Inr ()" "m' = m2"
      "tr = tr0 @ events lg @ [pausedEvent fp fs (length (uploadedParts (objects m2 (nextRef m))))
                                  (calcTotalParts fs)]"
  | (completeFailed) st tr0 m2 lg where
      "startState_v1 env m b k fp fs rid = (Inr st, tr0)" "openReply env = Reply ()"
      "uploadLoop_v1 env (registered m (stateKey b k) st) (nextRef m) fs (calcTotalParts fs)
         = (m2, lg)"
      "rejection lg = None" "\<not> isPaused (objects m2 (nextRef m))"
      "completeReply env = Throws"
      "res = Inl S3Error" "m' = m2"
      "tr = tr0 @ events lg
              @ [CompleteMultipartUpload (bucket (objects m2 (nextRef m)))
                   (key (objects m2 (nextRef m))) (uploadId (objects m2 (nextRef m)))
                   (uploadedParts (objects m2 (nextRef m))),
                 failedEvent fp fs]"
  | (completed) st tr0 m2 lg where
      "startState_v1 env m b k fp fs rid = (Inr st, tr0)" "openReply env = Reply ()"
      "uploadLoop_v1 env (registered m (stateKey b k) st) (nextRef m) fs (calcTotalParts fs)
         = (m2, lg)"
      "rejection lg = None" "\<not> isPaused (objects m2 (nextRef m))"
      "completeReply env = Reply ()"
      "res = Inr ()" "m' = m2\<lparr>uploadStates := (uploadStates m2)(stateKey b k := None)\<rparr>"
      "tr = tr0 @ events lg
              @ [CompleteMultipartUpload (bucket (objects m2 (nextRef m)))
                   (key (objects m2 (nextRef m))) (uploadId (objects m2 (nextRef m)))
                   (uploadedParts (objects m2 (nextRef m))),
                 completedEvent fp fs (calcTotalParts fs)]"
proof -
  obtain i0 tr0 where i: "startState_v1 env m b k fp fs rid = (i0, tr0)"
    by (cases "startState_v1 env m b k fp fs rid") auto
  note mu = run [unfolded multipartUpload_v1_def Let_def i]
  show thesis
  proof (cases i0)
    case (Inl e)
    with mu have "res = Inl e" "m' = m" "tr = tr0 @ [failedEvent fp fs]" by auto
    with i Inl initFailed show thesis by simp
  next
    case (Inr st)
    note i' = i [unfolded Inr]
    note mu' = mu [unfolded Inr sum.case prod.case]
    show thesis
    proof (cases "openReply env")
      case Throws
      from mu' [unfolded Throws reply.case]
      have "res = Inl FsError" "tr = tr0 @ [failedEvent fp fs]"
        and "m' = registered m (stateKey b k) st"
        by auto
      with i' Throws openFailed show thesis by simp
    next
      case (Reply u)
      then have o: "openReply env = Reply ()" by simp
      obtain m2 lg where l:
        "uploadLoop_v1 env (registered m (stateKey b k) st) (nextRef m) fs (calcTotalParts fs)
           = (m2, lg)"
        by (cases "uploadLoop_v1 env (registered m (stateKey b k) st) (nextRef m) fs
                     (calcTotalParts fs)") auto
      note mu'' = mu' [unfolded Reply reply.case l prod.case]
      show thesis
      proof (cases "rejection lg")
        case (Some x)
        obtain e where x: "x = (e, ())" by (cases x) auto
        from mu'' [unfolded Some x option.case prod.case]
        have "res = Inl e" "m' = m2"
          "tr = tr0 @ untilRejection lg @ [failedEvent fp fs] @ afterRejection lg"
          by auto
        with i' o l Some x rejected show thesis by simp
      next
        case None
        note fin = mu'' [unfolded None option.case]
        let ?s2 = "objects m2 (nextRef m)"
        show thesis
        proof (cases "isPaused ?s2")
          case True
          with fin have "res = Inr ()" "m' = m2"
            "tr = tr0 @ events lg @ [pausedEvent fp fs (length (uploadedParts ?s2))
                                        (calcTotalParts fs)]"
            by auto
          with i' o l None True paused show thesis by simp
        next
          case np: False
          show thesis
          proof (cases "completeReply env")
            case Throws
            with fin np have "res = Inl S3Error" "m' = m2"
              "tr = tr0 @ events lg
                 @ [CompleteMultipartUpload (bucket ?s2) (key ?s2) (uploadId ?s2)
                      (uploadedParts ?s2), failedEvent fp fs]"
              by (auto simp: completeMultipartUpload_def)
            with i' o l None np Throws completeFailed show thesis by simp
          next
            case (Reply v)
            with fin np have "res = Inr ()"
              "m' = m2\<lparr>uploadStates := (uploadStates m2)(stateKey b k := None)\<rparr>"
              "tr = tr0 @ events lg
                 @ [CompleteMultipartUpload (bucket ?s2) (key ?s2) (uploadId ?s2)
                      (uploadedParts ?s2), completedEvent fp fs (calcTotalParts fs)]"
              by (auto simp: completeMultipartUpload_def)
            moreover have "completeReply env = Reply ()" using Reply by simp
            ultimately show thesis using i' o l None np completed by simp
          qed
        qed
      qed
    qed
  qed
qed

section \<open>The events of a chunked upload\<close>

text \<open>The events a part task can produce.\<close>

fun partEvent :: "nat \<Rightarrow> event \<Rightarrow> bool" where
  "partEvent fs (UploadPartCmd b k u n off len) = True"
| "partEvent fs (AbortMultipartUpload b k u) = True"
| "partEvent fs (Delay d) = True"
| "partEvent fs (Progress p) = (status p = Uploading \<and> (0 < fs \<longrightarrow> 0 < percentage p))"
| "partEvent fs e = False"

lemma abortUpload_events:
  "abortUpload env m b k = (res, m', tr) \<Longrightarrow> \<forall>e\<in>set tr. partEvent fs e"
  by (auto simp: abortUpload_def Let_def split: option.splits reply.splits)

lemma deliver_events:
  "deliver env m b k c = (m', tr) \<Longrightarrow> \<forall>e\<in>set tr. partEvent fs e"
  by (cases c) (auto simp: deliver_def split: prod.splits dest!: abortUpload_events [where fs = fs])

lemma storePart_events:
  "storePart m r p etag fs = (m', tr) \<Longrightarrow> \<forall>e\<in>set tr. partEvent fs e"
  by (auto simp: storePart_def modify_def Let_def PART_SIZE_def)

lemma atWait_events:
  "atWait env m r a = (m', tr) \<Longrightarrow> \<forall>e\<in>set tr. partEvent fs e"
  unfolding atWait_def by (rule deliver_events)

lemma abortUpload_v1_events:
  "abortUpload_v1 env m b k = (res, m', tr) \<Longrightarrow> \<forall>e\<in>set tr. partEvent fs e"
  by (auto simp: abortUpload_v1_def Let_def split: option.splits reply.splits)

lemma deliver_v1_events:
  "deliver_v1 env m b k c = (m', tr) \<Longrightarrow> \<forall>e\<in>set tr. partEvent fs e"
  by (cases c)
     (auto simp: deliver_v1_def split: prod.splits dest!: abortUpload_v1_events [where fs = fs])

lemma atWait_v1_events:
  "atWait_v1 env m r a = (m', tr) \<Longrightarrow> \<forall>e\<in>set tr. partEvent fs e"
  unfolding atWait_v1_def by (rule deliver_v1_events)

lemma steps_events:
  assumes "steps C X r fs P m lg m'"
    and "\<And>m a m1 tr. C m a = (m1, tr) \<Longrightarrow> \<forall>e\<in>set tr. partEvent fs e"
  shows "\<forall>e\<in>set (events lg). partEvent fs e"
  using assms(1)
proof (induction rule: steps.induct)
  case (wait m a m1 tr l m')
  then show ?case using assms(2) [OF wait(1)] by auto
next
  case (store p e m m1 tr l m')
  then show ?case using storePart_events [OF store(3)] by auto
qed simp_all

lemma batches_events:
  assumes "batches C X r fs P m lg m'"
    and "\<And>m a m1 tr. C m a = (m1, tr) \<Longrightarrow> \<forall>e\<in>set tr. partEvent fs e"
  shows "\<forall>e\<in>set (events lg). partEvent fs e"
  using assms(1)
proof (induction rule: batches.induct)
  case (none m)
  show ?case by simp
next
  case (batch m n l m1 l' m')
  then show ?case using steps_events [OF batch(1) assms(2)] by auto
qed

lemma uploadLoop_events:
  "uploadLoop env m r fs tp = (m', lg) \<Longrightarrow> \<forall>e\<in>set (events lg). partEvent fs e"
  by (drule uploadLoop_batches, erule batches_events) (rule atWait_events)

lemma uploadLoop_v1_events:
  "uploadLoop_v1 env m r fs tp = (m', lg) \<Longrightarrow> \<forall>e\<in>set (events lg). partEvent fs e"
  by (drule uploadLoop_v1_batches, erule batches_events) (rule atWait_v1_events)

lemma log_parts:
  assumes "\<forall>e\<in>set (events lg). partEvent fs e"
  shows "(\<forall>e\<in>set (untilRejection lg). partEvent fs e)
       \<and> (\<forall>e\<in>set (afterRejection lg). partEvent fs e)"
  using assms unfolding events_split [of lg] by simp

text \<open>The errors that reject a part task are errors of the read or of the request.\<close>

lemma steps_errors:
  "steps C X r fs P m lg m' \<Longrightarrow> \<forall>e x. Rejected e x \<in> set lg \<longrightarrow> \<not> isIncomplete e"
  by (induction rule: steps.induct) auto

lemma batches_errors:
  "batches C X r fs P m lg m' \<Longrightarrow> \<forall>e x. Rejected e x \<in> set lg \<longrightarrow> \<not> isIncomplete e"
proof (induction rule: batches.induct)
  case (none m)
  show ?case by simp
next
  case (batch m n l m1 l' m')
  then show ?case using steps_errors [OF batch(1)] by auto
qed

text \<open>
  The abort flag of a state is never taken back, and a rejection that has found it set
  leaves it set.
\<close>

lemma abortUpload_isAborted:
  "abortUpload env m b k = (res, m', tr) \<Longrightarrow> isAborted (objects m x) \<Longrightarrow>
     isAborted (objects m' x) \<and> partsSent tr = []"
  by (auto simp: abortUpload_def modify_def Let_def split: option.splits reply.splits)

lemma deliver_isAborted:
  "deliver env m b k c = (m', tr) \<Longrightarrow> isAborted (objects m x) \<Longrightarrow>
     isAborted (objects m' x)"
  by (cases c)
     (auto simp: deliver_def pauseUpload_def modify_def split: prod.splits option.splits
           dest: abortUpload_isAborted)

lemma storePart_isAborted:
  "storePart m r p etag fs = (m', tr) \<Longrightarrow>
     isAborted (objects m' x) = isAborted (objects m x) \<and> partsSent tr = []"
  by (auto simp: storePart_def modify_def Let_def split: if_splits)

lemma atWait_isAborted:
  "atWait env m r a = (m', tr) \<Longrightarrow> isAborted (objects m x) \<Longrightarrow> isAborted (objects m' x)"
  unfolding atWait_def by (rule deliver_isAborted)

lemma steps_isAborted:
  "steps2 env r fs P m lg m' \<Longrightarrow> isAborted (objects m x) \<Longrightarrow> isAborted (objects m' x)"
proof (induction rule: steps.induct)
  case (wait m a m1 tr l m')
  then show ?case using atWait_isAborted by blast
next
  case (store p e m m1 tr l m')
  then show ?case using storePart_isAborted [OF store(3), of x] by simp
qed simp_all

lemma steps_rejected_aborted:
  "steps2 env r fs P m lg m' \<Longrightarrow> Rejected e True \<in> set lg \<Longrightarrow> isAborted (objects m' r)"
proof (induction rule: steps.induct)
  case (reject e' m l m')
  then show ?case using steps_isAborted [of env r fs P m l m' r] by auto
qed auto

lemma batches_isAborted:
  "batches (\<lambda>m. atWait env m r) (\<lambda>m. isAborted (objects m r)) r fs P m lg m' \<Longrightarrow>
     isAborted (objects m x) \<Longrightarrow> isAborted (objects m' x)"
proof (induction rule: batches.induct)
  case (none m)
  then show ?case by simp
next
  case (batch m n l m1 l' m')
  have "isAborted (objects (modify m r (\<lambda>s. s\<lparr>nextPartNumber := n\<rparr>)) x)"
    using batch(4) by (auto simp: modify_def)
  from steps_isAborted [OF batch(1) this] batch(3) show ?case by simp
qed

lemma batches_rejected_aborted:
  "batches (\<lambda>m. atWait env m r) (\<lambda>m. isAborted (objects m r)) r fs P m lg m' \<Longrightarrow>
     Rejected e True \<in> set lg \<Longrightarrow> isAborted (objects m' r)"
proof (induction rule: batches.induct)
  case (none m)
  then show ?case by simp
next
  case (batch m n l m1 l' m')
  show ?case
  proof (cases "Rejected e True \<in> set l")
    case True
    from steps_rejected_aborted [OF batch(1) True] batches_isAborted [OF batch(2)]
    show ?thesis by simp
  next
    case False
    with batch(4) have "Rejected e True \<in> set l'" by simp
    with batch(3) show ?thesis by simp
  qed
qed

section \<open>Calls for a key that is not registered\<close>

text \<open>
  C8. When no state is registered under the key of a bucket and key, \<open>pauseUpload\<close> and
  \<open>abortUpload\<close> return normally, send nothing and leave the manager as it is, and
  \<open>resumeUpload\<close> throws; this holds in both copies.
\<close>

theorem unregistered_pause_abort_resume:
  assumes "uploadStates m (stateKey b k) = None"
    and "uploadStates m1 (stateKey b k) = None"
  shows "pauseUpload m b k = m
       \<and> abortUpload env m b k = (Inr (), m, [])
       \<and> resumeUpload env m b k = (Inl (NoPausedUpload k), m, [])
       \<and> pauseUpload m1 b k = m1
       \<and> abortUpload_v1 env m1 b k = (Inr (), m1, [])
       \<and> resumeUpload_v1 env m1 b k = (Inl (NoPausedUpload k), m1, [])"
  using assms
  by (simp add: pauseUpload_def abortUpload_def resumeUpload_def abortUpload_v1_def
        resumeUpload_v1_def)

theorem unregistered_pause_abort_resume_witness:
  "uploadStates (emptyManager blankState) (stateKey ''photos'' ''a.bin'') = None
   \<and> pauseUpload (emptyManager blankState) ''photos'' ''a.bin'' = emptyManager blankState
   \<and> abortUpload (okEnv 0) (emptyManager blankState) ''photos'' ''a.bin''
       = (Inr (), emptyManager blankState, [])
   \<and> resumeUpload (okEnv 0) (emptyManager blankState) ''photos'' ''a.bin''
       = (Inl (NoPausedUpload ''a.bin''), emptyManager blankState, [])
   \<and> resumeUpload_v1 (okEnv 0) (emptyManager blankState_v1) ''photos'' ''a.bin''
       = (Inl (NoPausedUpload ''a.bin''), emptyManager blankState_v1, [])"
proof -
  have a: "uploadStates (emptyManager blankState) (stateKey ''photos'' ''a.bin'') = None"
    by (simp add: emptyManager_def)
  have b: "uploadStates (emptyManager blankState_v1) (stateKey ''photos'' ''a.bin'') = None"
    by (simp add: emptyManager_def)
  show ?thesis
    using a unregistered_pause_abort_resume [OF a b, of "okEnv 0"] by simp
qed

section \<open>Abort of a registered transfer\<close>

text \<open>
  C9. When a state is registered under the key, \<open>abortUpload\<close> sends the abort command
  for that state's bucket, key and upload id; when the command succeeds the entry is
  removed, so that \<open>getUploadState\<close> then finds nothing and a second \<open>abortUpload\<close>
  sends nothing and changes nothing. This holds in both copies.
\<close>

theorem abort_registered:
  assumes "uploadStates m (stateKey b k) = Some r"
    and "uploadStates m1 (stateKey b k) = Some r1"
  shows "(case abortUpload env m b k of (res, m', tr) \<Rightarrow>
            tr = [AbortMultipartUpload (bucket (objects m r)) (key (objects m r))
                    (uploadId (objects m r))]
          \<and> (abortReply env = Reply () \<longrightarrow>
               res = Inr () \<and> getUploadState m' b k = None
             \<and> abortUpload env' m' b k = (Inr (), m', [])))
       \<and> (case abortUpload_v1 env m1 b k of (res, m', tr) \<Rightarrow>
            tr = [AbortMultipartUpload (bucket (objects m1 r1)) (key (objects m1 r1))
                    (uploadId (objects m1 r1))]
          \<and> (abortReply env = Reply () \<longrightarrow>
               res = Inr () \<and> getUploadState m' b k = None
             \<and> abortUpload_v1 env' m' b k = (Inr (), m', [])))"
  using assms
  by (simp add: abortUpload_def abortUpload_v1_def modify_def getUploadState_def Let_def
           split: reply.splits)

theorem abort_registered_witness:
  "uploadStates (oneTransfer gapState) (stateKey ''photos'' ''a.bin'') = Some 0
   \<and> uploadStates (oneTransfer gapState_v1) (stateKey ''photos'' ''a.bin'') = Some 0
   \<and> abortReply (okEnv 0) = Reply ()
   \<and> snd (snd (abortUpload (okEnv 0) (oneTransfer gapState) ''photos'' ''a.bin''))
       = [AbortMultipartUpload ''photos'' ''a.bin'' ''id1'']
   \<and> getUploadState
         (fst (snd (abortUpload (okEnv 0) (oneTransfer gapState) ''photos'' ''a.bin'')))
         ''photos'' ''a.bin'' = None
   \<and> snd (snd (abortUpload_v1 (okEnv 0) (oneTransfer gapState_v1) ''photos'' ''a.bin''))
       = [AbortMultipartUpload ''photos'' ''a.bin'' ''id1'']
   \<and> getUploadState
         (fst (snd (abortUpload_v1 (okEnv 0) (oneTransfer gapState_v1) ''photos'' ''a.bin'')))
         ''photos'' ''a.bin'' = None"
proof -
  have a: "uploadStates (oneTransfer gapState) (stateKey ''photos'' ''a.bin'') = Some 0"
    by (simp add: oneTransfer_def gapState_def)
  have b: "uploadStates (oneTransfer gapState_v1) (stateKey ''photos'' ''a.bin'') = Some 0"
    by (simp add: oneTransfer_def gapState_v1_def)
  have c: "abortReply (okEnv 0) = Reply ()"
    by (simp add: okEnv_def)
  show ?thesis
    using a b c abort_registered [OF a b, of "okEnv 0" "okEnv 0"]
    by (simp add: oneTransfer_def gapState_def gapState_v1_def split: prod.splits)
qed

section \<open>Files below the threshold\<close>

text \<open>
  C3. For a file whose size is below \<open>MULTIPART_THRESHOLD\<close> and that can be read,
  \<open>uploadFile\<close> sends exactly one command to the object store, the put of the object, and
  hands the manager back as it was: nothing is registered, and \<open>getUploadState\<close> finds
  what it found before (nothing, when nothing was there). This holds in both copies.
\<close>

theorem small_file_one_put:
  assumes "statReply env = Reply fs"
    and "fs < MULTIPART_THRESHOLD"
    and "readFileReply env = Reply ()"
  shows "(case uploadFile env m b k fp of (res, m', tr) \<Rightarrow>
            filter isCommand tr = [PutObject b k] \<and> m' = m
          \<and> (getUploadState m b k = None \<longrightarrow> getUploadState m' b k = None))
       \<and> (case uploadFile_v1 env m1 b k fp of (res, m', tr) \<Rightarrow>
            filter isCommand tr = [PutObject b k] \<and> m' = m1
          \<and> (getUploadState m1 b k = None \<longrightarrow> getUploadState m' b k = None))"
  using assms
  by (simp add: uploadFile_def uploadFile_v1_def simpleUpload_def failedEvent_def Let_def
           split: reply.splits)

theorem small_file_one_put_witness:
  "statReply (okEnv 100) = Reply 100 \<and> 100 < MULTIPART_THRESHOLD
   \<and> readFileReply (okEnv 100) = Reply ()
   \<and> getUploadState (emptyManager blankState) ''photos'' ''a.bin'' = None
   \<and> filter isCommand
        (snd (snd (uploadFile (okEnv 100) (emptyManager blankState) ''photos'' ''a.bin'' ''./a.bin'')))
       = [PutObject ''photos'' ''a.bin'']
   \<and> getUploadState
        (fst (snd (uploadFile (okEnv 100) (emptyManager blankState) ''photos'' ''a.bin'' ''./a.bin'')))
        ''photos'' ''a.bin'' = None"
proof -
  have a: "statReply (okEnv 100) = Reply 100"
    by (simp add: okEnv_def)
  have b: "100 < MULTIPART_THRESHOLD"
    by (simp add: MULTIPART_THRESHOLD_def)
  have c: "readFileReply (okEnv 100) = Reply ()"
    by (simp add: okEnv_def)
  have d: "getUploadState (emptyManager blankState) ''photos'' ''a.bin'' = None"
    by (simp add: getUploadState_def emptyManager_def)
  show ?thesis
    using a b c d
      small_file_one_put [OF a b c, where m = "emptyManager blankState" and b = "''photos''"
        and k = "''a.bin''" and fp = "''./a.bin''" and ?m1.0 = "emptyManager blankState_v1"]
    by (simp split: prod.splits)
qed

section \<open>Resuming a transfer that has every part\<close>

text \<open>
  The state registered under the key has every planned part exactly once, the object
  store lists the same parts for its upload id, and the file can be opened.
\<close>

definition fullyStored ::
  "env \<Rightarrow> ('a UploadState_v1_scheme) Manager \<Rightarrow> string \<Rightarrow> string \<Rightarrow> ref \<Rightarrow> bool" where
  "fullyStored env m b k r =
     (uploadStates m (stateKey b k) = Some r
      \<and> bucket (objects m r) = b \<and> key (objects m r) = k \<and> uploadId (objects m r) \<noteq> []
      \<and> distinct (map PartNumber (uploadedParts (objects m r)))
      \<and> PartNumber ` set (uploadedParts (objects m r))
          = {1..calcTotalParts (fileSize (objects m r))}
      \<and> listReply env = Reply (Some (uploadedParts (objects m r)))
      \<and> openReply env = Reply ())"

lemma full_length:
  assumes "distinct (map PartNumber ps)" and "PartNumber ` set ps = {1..tp}"
  shows "length ps = tp"
proof -
  have "length ps = length (map PartNumber ps)" by simp
  also have "\<dots> = card (set (map PartNumber ps))"
    using assms(1) by (simp only: distinct_card)
  also have "\<dots> = tp" using assms(2) by simp
  finally show ?thesis .
qed

lemma findNextPart_full:
  "{1..tp} \<subseteq> U \<Longrightarrow> findNextPart U n tp = None"
proof -
  assume sub: "{1..tp} \<subseteq> U"
  have "\<And>x. x \<in> set [1..<Suc tp] \<Longrightarrow> x \<in> U"
    using sub by auto
  then show ?thesis
    by (auto simp: findNextPart_def find_None_iff simp del: upt_Suc)
qed

text \<open>
  C7. \<open>resumeUpload\<close> on a transfer whose stored parts are all the planned parts sends
  no part upload: after listing the parts it goes straight to the complete command, and
  then reports \<open>completed\<close> (or \<open>failed\<close> when the complete command fails). This holds in
  both copies.
\<close>

theorem resume_complete_set:
  assumes "fullyStored env m b k r" and "fullyStored env m1 b k r1"
  shows "(case resumeUpload env m b k of (res, m', tr) \<Rightarrow>
            partsSent tr = []
          \<and> tr = [ListParts b k (uploadId (objects m r)),
                   CompleteMultipartUpload b k (uploadId (objects m r))
                     (uploadedParts (objects m r)),
                   if completeReply env = Throws
                   then failedEvent (filePath (objects m r)) (fileSize (objects m r))
                   else completedEvent (filePath (objects m r)) (fileSize (objects m r))
                          (calcTotalParts (fileSize (objects m r)))])
       \<and> (case resumeUpload_v1 env m1 b k of (res, m', tr) \<Rightarrow>
            partsSent tr = []
          \<and> tr = [ListParts b k (uploadId (objects m1 r1)),
                   CompleteMultipartUpload b k (uploadId (objects m1 r1))
                     (uploadedParts (objects m1 r1)),
                   if completeReply env = Throws
                   then failedEvent (filePath (objects m1 r1)) (fileSize (objects m1 r1))
                   else completedEvent (filePath (objects m1 r1)) (fileSize (objects m1 r1))
                          (calcTotalParts (fileSize (objects m1 r1)))])"
proof -
  let ?st = "objects m r"
  let ?tp = "calcTotalParts (fileSize ?st)"
  have len: "length (uploadedParts ?st) = ?tp"
    using assms(1) by (intro full_length) (simp_all add: fullyStored_def)
  have none: "findNextPart (set (map PartNumber (uploadedParts ?st))) 1 ?tp = None"
    using assms(1) by (intro findNextPart_full) (simp add: fullyStored_def)
  have A: "case resumeUpload env m b k of (res, m', tr) \<Rightarrow>
            partsSent tr = []
          \<and> tr = [ListParts b k (uploadId ?st),
                   CompleteMultipartUpload b k (uploadId ?st) (uploadedParts ?st),
                   if completeReply env = Throws
                   then failedEvent (filePath ?st) (fileSize ?st)
                   else completedEvent (filePath ?st) (fileSize ?st) ?tp]"
    using assms(1) len none
    by (simp add: fullyStored_def resumeUpload_def multipartUpload_def
          resumeMultipartUpload_def finalUploadId_def truthy_def modify_def Let_def
          uploadLoop.simps completeMultipartUpload_def catchBlock_def getUploadState_def
          failedEvent_def completedEvent_def
          split: reply.splits)
  let ?s1 = "objects m1 r1"
  let ?tp1 = "calcTotalParts (fileSize ?s1)"
  have len1: "length (uploadedParts ?s1) = ?tp1"
    using assms(2) by (intro full_length) (simp_all add: fullyStored_def)
  have B: "case resumeUpload_v1 env m1 b k of (res, m', tr) \<Rightarrow>
            partsSent tr = []
          \<and> tr = [ListParts b k (uploadId ?s1),
                   CompleteMultipartUpload b k (uploadId ?s1) (uploadedParts ?s1),
                   if completeReply env = Throws
                   then failedEvent (filePath ?s1) (fileSize ?s1)
                   else completedEvent (filePath ?s1) (fileSize ?s1) ?tp1]"
    using assms(2) len1
    by (simp add: fullyStored_def resumeUpload_v1_def multipartUpload_v1_def
          resumeMultipartUpload_v1_def finalUploadId_def truthy_def modify_def Let_def
          uploadLoop_v1.simps completeMultipartUpload_def getUploadState_def
          failedEvent_def completedEvent_def
          split: reply.splits)
  from A B show ?thesis by simp
qed


lemma interval_one_two: "{Suc 0..2} = {Suc 0, 2}"
  by auto

theorem resume_complete_set_witness:
  "fullyStored fullEnv (oneTransfer fullState) ''photos'' ''a.bin'' 0
   \<and> fullyStored fullEnv (oneTransfer fullState_v1) ''photos'' ''a.bin'' 0
   \<and> partsSent (snd (snd (resumeUpload fullEnv (oneTransfer fullState) ''photos'' ''a.bin''))) = []
   \<and> snd (snd (resumeUpload fullEnv (oneTransfer fullState) ''photos'' ''a.bin''))
      = [ListParts ''photos'' ''a.bin'' ''id1'',
         CompleteMultipartUpload ''photos'' ''a.bin'' ''id1''
           [\<lparr>PartNumber = 1, ETag = ''e1''\<rparr>, \<lparr>PartNumber = 2, ETag = ''e2''\<rparr>],
         completedEvent ''./a.bin'' (2 * PART_SIZE) 2]
   \<and> snd (snd (resumeUpload_v1 fullEnv (oneTransfer fullState_v1) ''photos'' ''a.bin''))
      = [ListParts ''photos'' ''a.bin'' ''id1'',
         CompleteMultipartUpload ''photos'' ''a.bin'' ''id1''
           [\<lparr>PartNumber = 1, ETag = ''e1''\<rparr>, \<lparr>PartNumber = 2, ETag = ''e2''\<rparr>],
         completedEvent ''./a.bin'' (2 * PART_SIZE) 2]"
proof -
  have tp: "calcTotalParts (2 * PART_SIZE) = 2"
    by (simp add: calcTotalParts_def PART_SIZE_def)
  have a: "fullyStored fullEnv (oneTransfer fullState) ''photos'' ''a.bin'' 0"
    by (simp add: fullyStored_def fullEnv_def okEnv_def oneTransfer_def fullState_def
          stateKey_def tp interval_one_two)
  have b: "fullyStored fullEnv (oneTransfer fullState_v1) ''photos'' ''a.bin'' 0"
    by (simp add: fullyStored_def fullEnv_def okEnv_def oneTransfer_def fullState_v1_def
          stateKey_def tp interval_one_two)
  have c: "completeReply fullEnv = Reply ()"
    by (simp add: fullEnv_def okEnv_def)
  show ?thesis
    using a b resume_complete_set [OF a b]
    by (simp add: c oneTransfer_def fullState_def fullState_v1_def tp split: prod.splits)
qed

section \<open>The shape of the events of a chunked upload\<close>

text \<open>
  The events of a chunked upload are the opening command and events of part tasks, then
  the closing events, and then, when \<open>await Promise.all\<close> has thrown, the events of the
  part tasks that were still running.
\<close>

fun openingEvent :: "event \<Rightarrow> bool" where
  "openingEvent (CreateMultipartUpload b k) = True"
| "openingEvent (ListParts b k u) = True"
| "openingEvent e = False"


lemma initiate_opening:
  "initiateMultipartUpload env b k fp fs = (res, tr) \<Longrightarrow> \<forall>e\<in>set tr. openingEvent e"
  by (auto simp: initiateMultipartUpload_def Let_def split: reply.splits option.splits if_splits)

lemma resume_opening:
  "resumeMultipartUpload env m b k fp fs rid = (res, tr) \<Longrightarrow> \<forall>e\<in>set tr. openingEvent e"
  by (auto simp: resumeMultipartUpload_def Let_def split: reply.splits option.splits if_splits)

lemma initiate_v1_opening:
  "initiateMultipartUpload_v1 env b k fp fs = (res, tr) \<Longrightarrow> \<forall>e\<in>set tr. openingEvent e"
  by (auto simp: initiateMultipartUpload_v1_def Let_def
           split: reply.splits option.splits if_splits)

lemma resume_v1_opening:
  "resumeMultipartUpload_v1 env m b k fp fs rid = (res, tr) \<Longrightarrow> \<forall>e\<in>set tr. openingEvent e"
  by (auto simp: resumeMultipartUpload_v1_def Let_def
           split: reply.splits option.splits if_splits)


definition taskEvents :: "nat \<Rightarrow> event list \<Rightarrow> bool" where
  "taskEvents fs tr = (\<forall>e\<in>set tr. openingEvent e \<or> partEvent fs e)"

text \<open>
  The closing events \<open>cl\<close> of a run with result \<open>res\<close>, where \<open>aborted\<close> says whether the
  state of the transfer is aborted in the end and \<open>post\<close> are the events behind \<open>cl\<close>.
\<close>

definition closing ::
  "string \<Rightarrow> nat \<Rightarrow> (error + unit) \<Rightarrow> bool \<Rightarrow> event list \<Rightarrow> event list \<Rightarrow> bool" where
  "closing fp fs res aborted cl post =
     (case res of
        Inl e \<Rightarrow> cl = [failedEvent fp fs]
                 \<or> (\<exists>b k u ps. cl = [CompleteMultipartUpload b k u ps, failedEvent fp fs]
                                \<and> post = [])
      | Inr u \<Rightarrow> if aborted then cl = []
                 else post = []
                      \<and> ((\<exists>n. cl = [pausedEvent fp fs n (calcTotalParts fs)])
                         \<or> (\<exists>b k u ps. cl = [CompleteMultipartUpload b k u ps,
                                               completedEvent fp fs (calcTotalParts fs)])))"

definition shape ::
  "string \<Rightarrow> nat \<Rightarrow> (error + unit) \<Rightarrow> bool \<Rightarrow> event list \<Rightarrow> bool" where
  "shape fp fs res aborted tr =
     (\<exists>pre cl post. tr = pre @ cl @ post \<and> taskEvents fs pre \<and> taskEvents fs post
        \<and> closing fp fs res aborted cl post)"

lemma taskEvents_append [simp]:
  "taskEvents fs (xs @ ys) = (taskEvents fs xs \<and> taskEvents fs ys)"
  by (auto simp: taskEvents_def)

lemma taskEvents_nil [simp]: "taskEvents fs []"
  by (simp add: taskEvents_def)

lemma opening_taskEvents: "\<forall>e\<in>set tr. openingEvent e \<Longrightarrow> taskEvents fs tr"
  by (simp add: taskEvents_def)

lemma parts_taskEvents: "\<forall>e\<in>set tr. partEvent fs e \<Longrightarrow> taskEvents fs tr"
  by (simp add: taskEvents_def)

lemma startState_taskEvents:
  "startState env m b k fp fs rid = (i0, tr0) \<Longrightarrow> taskEvents fs' tr0"
  by (auto split: if_splits intro: opening_taskEvents dest: resume_opening initiate_opening)

lemma startState_v1_taskEvents:
  "startState_v1 env m b k fp fs rid = (i0, tr0) \<Longrightarrow> taskEvents fs' tr0"
  by (auto split: if_splits intro: opening_taskEvents
           dest: resume_v1_opening initiate_v1_opening)

lemma startState_not_aborted:
  "startState env m b k fp fs rid = (Inr st, tr0) \<Longrightarrow> \<not> isAborted st \<and> \<not> isPaused st"
  by (auto simp: resumeMultipartUpload_def initiateMultipartUpload_def Let_def
           split: if_splits reply.splits option.splits)

lemma shapeI:
  assumes "tr = pre @ cl @ post" and "taskEvents fs pre" and "taskEvents fs post"
    and "closing fp fs res aborted cl post"
  shows "shape fp fs res aborted tr"
  using assms unfolding shape_def by blast

lemma multipartUpload_shape:
  assumes "multipartUpload env m b k fp fs rid = (res, m', tr)"
  shows "shape fp fs res (isAborted (objects m' (nextRef m))) tr"
  using assms
proof (cases rule: multipartUpload_cases)
  case (initFailed e tr0)
  show ?thesis
    by (rule shapeI [where pre = tr0 and cl = "[failedEvent fp fs]" and post = "[]"])
       (simp_all add: initFailed startState_taskEvents [OF initFailed(1)] closing_def)
next
  case (openFailed st tr0)
  from openFailed(3) startState_not_aborted [OF openFailed(1)]
  have "res = Inl FsError" "tr = tr0 @ [failedEvent fp fs]"
    by (simp_all add: catchBlock_def)
  then show ?thesis
    by (intro shapeI [where pre = tr0 and cl = "[failedEvent fp fs]" and post = "[]"])
       (simp_all add: startState_taskEvents [OF openFailed(1)] closing_def)
next
  case (rejected st tr0 m2 lg e ab)
  have ev: "taskEvents fs (untilRejection lg)" "taskEvents fs (afterRejection lg)"
    using log_parts [OF uploadLoop_events [OF rejected(3)]]
    by (simp_all add: parts_taskEvents)
  show ?thesis
  proof (cases ab)
    case True
    have "isAborted (objects m2 (nextRef m))"
      using batches_rejected_aborted [OF uploadLoop_batches [OF rejected(3)]]
        rejection_in_log [OF rejected(4)] True by simp
    then show ?thesis
      using rejected True ev startState_taskEvents [OF rejected(1)]
      by (intro shapeI [where pre = "tr0 @ untilRejection lg" and cl = "[]"
                          and post = "afterRejection lg"])
         (simp_all add: closing_def)
  next
    case False
    then show ?thesis
      using rejected ev startState_taskEvents [OF rejected(1)]
      by (intro shapeI [where pre = "tr0 @ untilRejection lg" and cl = "[failedEvent fp fs]"
                          and post = "afterRejection lg"])
         (simp_all add: closing_def)
  qed
next
  case (aborted st tr0 m2 lg)
  then show ?thesis
    using parts_taskEvents [OF uploadLoop_events [OF aborted(3)]]
      startState_taskEvents [OF aborted(1)]
    by (intro shapeI [where pre = "tr0 @ events lg" and cl = "[]" and post = "[]"])
       (simp_all add: closing_def)
next
  case (paused st tr0 m2 lg)
  then show ?thesis
    using parts_taskEvents [OF uploadLoop_events [OF paused(3)]]
      startState_taskEvents [OF paused(1)]
    by (intro shapeI [where pre = "tr0 @ events lg" and post = "[]"
           and cl = "[pausedEvent fp fs (length (uploadedParts (objects m2 (nextRef m))))
                        (calcTotalParts fs)]"])
       (auto simp: closing_def)
next
  case (incomplete st tr0 m2 lg)
  then show ?thesis
    using parts_taskEvents [OF uploadLoop_events [OF incomplete(3)]]
      startState_taskEvents [OF incomplete(1)]
    by (intro shapeI [where pre = "tr0 @ events lg" and post = "[]"
           and cl = "[failedEvent fp fs]"])
       (simp_all add: closing_def)
next
  case (completeFailed st tr0 m2 lg)
  then show ?thesis
    using parts_taskEvents [OF uploadLoop_events [OF completeFailed(3)]]
      startState_taskEvents [OF completeFailed(1)]
    by (intro shapeI [where pre = "tr0 @ events lg" and post = "[]"
           and cl = "[CompleteMultipartUpload (bucket (objects m2 (nextRef m)))
                        (key (objects m2 (nextRef m))) (uploadId (objects m2 (nextRef m)))
                        (uploadedParts (objects m2 (nextRef m))), failedEvent fp fs]"])
       (simp_all add: closing_def)
next
  case (completed st tr0 m2 lg)
  then show ?thesis
    using parts_taskEvents [OF uploadLoop_events [OF completed(3)]]
      startState_taskEvents [OF completed(1)]
    by (intro shapeI [where pre = "tr0 @ events lg" and post = "[]"
           and cl = "[CompleteMultipartUpload (bucket (objects m2 (nextRef m)))
                        (key (objects m2 (nextRef m))) (uploadId (objects m2 (nextRef m)))
                        (uploadedParts (objects m2 (nextRef m))),
                      completedEvent fp fs (calcTotalParts fs)]"])
       (simp_all add: closing_def)
qed

lemma multipartUpload_v1_shape:
  assumes "multipartUpload_v1 env m b k fp fs rid = (res, m', tr)"
  shows "shape fp fs res False tr"
  using assms
proof (cases rule: multipartUpload_v1_cases)
  case (initFailed e tr0)
  show ?thesis
    by (rule shapeI [where pre = tr0 and cl = "[failedEvent fp fs]" and post = "[]"])
       (simp_all add: initFailed startState_v1_taskEvents [OF initFailed(1)] closing_def)
next
  case (openFailed st tr0)
  show ?thesis
    by (rule shapeI [where pre = tr0 and cl = "[failedEvent fp fs]" and post = "[]"])
       (simp_all add: openFailed startState_v1_taskEvents [OF openFailed(1)] closing_def)
next
  case (rejected st tr0 m2 lg e)
  have ev: "taskEvents fs (untilRejection lg)" "taskEvents fs (afterRejection lg)"
    using log_parts [OF uploadLoop_v1_events [OF rejected(3)]]
    by (simp_all add: parts_taskEvents)
  show ?thesis
    using rejected ev startState_v1_taskEvents [OF rejected(1)]
    by (intro shapeI [where pre = "tr0 @ untilRejection lg" and cl = "[failedEvent fp fs]"
                        and post = "afterRejection lg"])
       (simp_all add: closing_def)
next
  case (paused st tr0 m2 lg)
  then show ?thesis
    using parts_taskEvents [OF uploadLoop_v1_events [OF paused(3)]]
      startState_v1_taskEvents [OF paused(1)]
    by (intro shapeI [where pre = "tr0 @ events lg" and post = "[]"
           and cl = "[pausedEvent fp fs (length (uploadedParts (objects m2 (nextRef m))))
                        (calcTotalParts fs)]"])
       (auto simp: closing_def)
next
  case (completeFailed st tr0 m2 lg)
  then show ?thesis
    using parts_taskEvents [OF uploadLoop_v1_events [OF completeFailed(3)]]
      startState_v1_taskEvents [OF completeFailed(1)]
    by (intro shapeI [where pre = "tr0 @ events lg" and post = "[]"
           and cl = "[CompleteMultipartUpload (bucket (objects m2 (nextRef m)))
                        (key (objects m2 (nextRef m))) (uploadId (objects m2 (nextRef m)))
                        (uploadedParts (objects m2 (nextRef m))), failedEvent fp fs]"])
       (simp_all add: closing_def)
next
  case (completed st tr0 m2 lg)
  then show ?thesis
    using parts_taskEvents [OF uploadLoop_v1_events [OF completed(3)]]
      startState_v1_taskEvents [OF completed(1)]
    by (intro shapeI [where pre = "tr0 @ events lg" and post = "[]"
           and cl = "[CompleteMultipartUpload (bucket (objects m2 (nextRef m)))
                        (key (objects m2 (nextRef m))) (uploadId (objects m2 (nextRef m)))
                        (uploadedParts (objects m2 (nextRef m))),
                      completedEvent fp fs (calcTotalParts fs)]"])
       (simp_all add: closing_def)
qed

text \<open>The progress reports of a run, in order.\<close>

fun reports :: "event list \<Rightarrow> ProgressInfo list" where
  "reports [] = []"
| "reports (Progress p # tr) = p # reports tr"
| "reports (e # tr) = reports tr"

lemma reports_append [simp]: "reports (xs @ ys) = reports xs @ reports ys"
  by (induction xs rule: reports.induct) simp_all

lemma reports_set: "p \<in> set (reports tr) \<longleftrightarrow> Progress p \<in> set tr"
  by (induction tr rule: reports.induct) auto

lemma taskEvents_reports:
  "taskEvents fs tr \<Longrightarrow> p \<in> set (reports tr) \<Longrightarrow>
     status p = Uploading \<and> (0 < fs \<longrightarrow> 0 < percentage p)"
  unfolding taskEvents_def reports_set by fastforce


section \<open>The report of a failed upload\<close>

text \<open>
  What C10 says of the events of a run: every \<open>failed\<close> report has \<open>uploadedBytes\<close> 0 and
  \<open>percentage\<close> 0; a run that throws after its first event makes exactly one such
  report, and a run that returns makes none.
\<close>

definition failedReports :: "event list \<Rightarrow> ProgressInfo list" where
  "failedReports tr = filter (\<lambda>p. status p = Failed) (reports tr)"

definition failedAtZero :: "(error + unit) \<Rightarrow> event list \<Rightarrow> bool" where
  "failedAtZero res tr =
     ((\<forall>p\<in>set (failedReports tr). uploadedBytes p = 0 \<and> percentage p = 0)
      \<and> (\<forall>e. res = Inl e \<and> tr \<noteq> [] \<longrightarrow> length (failedReports tr) = 1)
      \<and> (res = Inr () \<longrightarrow> failedReports tr = []))"

lemma taskEvents_failed: "taskEvents fs tr \<Longrightarrow> failedReports tr = []"
  by (auto simp: failedReports_def filter_empty_conv dest: taskEvents_reports)

lemma failedReports_append [simp]:
  "failedReports (xs @ ys) = failedReports xs @ failedReports ys"
  by (simp add: failedReports_def)

lemma shape_failedAtZero:
  assumes "shape fp fs res aborted tr"
  shows "failedAtZero res tr"
proof -
  from assms obtain pre cl post where tr: "tr = pre @ cl @ post"
    and pre: "taskEvents fs pre" and post: "taskEvents fs post"
    and cl: "closing fp fs res aborted cl post"
    unfolding shape_def by blast
  have f: "failedReports tr = failedReports cl"
    using taskEvents_failed [OF pre] taskEvents_failed [OF post] by (simp add: tr)
  show ?thesis
  proof (cases res)
    case (Inl e)
    with cl have "failedReports cl =
        [\<lparr>fileName = fp, uploadedBytes = 0, totalBytes = fs, percentage = 0,
          currentPart = None, totalParts = None, status = Failed\<rparr>]"
      by (auto simp: closing_def failedReports_def failedEvent_def)
    with f Inl show ?thesis by (simp add: failedAtZero_def)
  next
    case (Inr u)
    with cl have "failedReports cl = []"
      by (auto simp: closing_def failedReports_def pausedEvent_def completedEvent_def
               split: if_splits)
    with f Inr show ?thesis by (simp add: failedAtZero_def)
  qed
qed

lemma multipartUpload_failedAtZero:
  "multipartUpload env m b k fp fs rid = (res, m', tr) \<Longrightarrow> failedAtZero res tr"
  using multipartUpload_shape shape_failedAtZero by blast

lemma multipartUpload_v1_failedAtZero:
  "multipartUpload_v1 env m b k fp fs rid = (res, m', tr) \<Longrightarrow> failedAtZero res tr"
  using multipartUpload_v1_shape shape_failedAtZero by blast

lemma simpleUpload_failedAtZero:
  "simpleUpload env b k fp fs = (res, tr) \<Longrightarrow> failedAtZero res tr"
  by (auto simp: simpleUpload_def failedAtZero_def failedReports_def failedEvent_def Let_def
           split: reply.splits)

text \<open>
  C10. Whatever was transferred before, every \<open>failed\<close> report of an upload has
  \<open>uploadedBytes\<close> 0 and \<open>percentage\<close> 0, and an upload that throws makes exactly one such
  report (an upload that throws before its first event, when \<open>Deno.stat\<close> fails or nothing
  is registered for a resume, reports nothing); an upload that returns makes none. This
  holds for \<open>uploadFile\<close>, \<open>resumeUpload\<close> and \<open>multipartUpload\<close> of both copies.
\<close>

theorem failed_event_reports_zero:
  "(case uploadFile env m b k fp of (res, m', tr) \<Rightarrow> failedAtZero res tr)
   \<and> (case resumeUpload env m b k of (res, m', tr) \<Rightarrow> failedAtZero res tr)
   \<and> (case multipartUpload env m b k fp fs rid of (res, m', tr) \<Rightarrow> failedAtZero res tr)
   \<and> (case uploadFile_v1 env m1 b k fp of (res, m', tr) \<Rightarrow> failedAtZero res tr)
   \<and> (case resumeUpload_v1 env m1 b k of (res, m', tr) \<Rightarrow> failedAtZero res tr)
   \<and> (case multipartUpload_v1 env m1 b k fp fs rid of (res, m', tr) \<Rightarrow> failedAtZero res tr)"
proof -
  have nil: "failedAtZero res []" for res
    by (simp add: failedAtZero_def failedReports_def)
  have 1: "case uploadFile env m b k fp of (res, m', tr) \<Rightarrow> failedAtZero res tr"
    by (auto simp: uploadFile_def nil split: reply.splits prod.splits
             dest: simpleUpload_failedAtZero multipartUpload_failedAtZero)
  have 2: "case resumeUpload env m b k of (res, m', tr) \<Rightarrow> failedAtZero res tr"
    by (auto simp: resumeUpload_def nil Let_def split: option.splits prod.splits
             dest: multipartUpload_failedAtZero)
  have 3: "case multipartUpload env m b k fp fs rid of (res, m', tr) \<Rightarrow> failedAtZero res tr"
    by (auto dest: multipartUpload_failedAtZero)
  have 4: "case uploadFile_v1 env m1 b k fp of (res, m', tr) \<Rightarrow> failedAtZero res tr"
    by (auto simp: uploadFile_v1_def nil split: reply.splits prod.splits
             dest: simpleUpload_failedAtZero multipartUpload_v1_failedAtZero)
  have 5: "case resumeUpload_v1 env m1 b k of (res, m', tr) \<Rightarrow> failedAtZero res tr"
    by (auto simp: resumeUpload_v1_def nil Let_def split: option.splits prod.splits
             dest: multipartUpload_v1_failedAtZero)
  have 6: "case multipartUpload_v1 env m1 b k fp fs rid of (res, m', tr) \<Rightarrow> failedAtZero res tr"
    by (auto dest: multipartUpload_v1_failedAtZero)
  from 1 2 3 4 5 6 show ?thesis by blast
qed

text \<open>
  A file of three parts where the store refuses every request for part 1. Parts 2 and 3
  are stored, in the earlier copy after the \<open>failed\<close> report, in the gap-scanning copy
  while part 1 is tried again.
\<close>

definition refusingEnv :: env where
  "refusingEnv = (okEnv (3 * PART_SIZE))\<lparr>partReply :=
      (\<lambda>p a. if p = 1 then SendThrows else PartReply (Some ''etag''))\<rparr>"

theorem failed_event_reports_zero_witness:
  "fst (uploadFile refusingEnv (emptyManager blankState) ''photos'' ''a.bin'' ''./a.bin'')
     = Inl S3Error
   \<and> partsSent (snd (snd (uploadFile refusingEnv (emptyManager blankState)
                             ''photos'' ''a.bin'' ''./a.bin''))) = [1, 2, 3, 1, 1, 1]
   \<and> map PartNumber (uploadedParts (objects (fst (snd (uploadFile refusingEnv
         (emptyManager blankState) ''photos'' ''a.bin'' ''./a.bin''))) 0)) = [2, 3]
   \<and> (\<exists>p. failedReports (snd (snd (uploadFile refusingEnv (emptyManager blankState)
                             ''photos'' ''a.bin'' ''./a.bin''))) = [p]
          \<and> uploadedBytes p = 0 \<and> percentage p = 0)"
proof -
  let ?run = "uploadFile refusingEnv (emptyManager blankState) ''photos'' ''a.bin'' ''./a.bin''"
  have a: "fst ?run = Inl S3Error"
    by (simp add: run_defs shared_defs input_defs refusingEnv_def)
  have b: "partsSent (snd (snd ?run)) = [1, 2, 3, 1, 1, 1]"
    by (simp add: run_defs shared_defs input_defs refusingEnv_def)
  then have c: "snd (snd ?run) \<noteq> []"
    by auto
  have d: "map PartNumber (uploadedParts (objects (fst (snd ?run)) 0)) = [2, 3]"
    by (simp add: run_defs shared_defs input_defs refusingEnv_def)
  have "failedAtZero (fst ?run) (snd (snd ?run))"
    using failed_event_reports_zero [of refusingEnv "emptyManager blankState" "''photos''"
             "''a.bin''" "''./a.bin''", THEN conjunct1]
    by (auto split: prod.splits)
  with a c have "length (failedReports (snd (snd ?run))) = 1"
    and z: "\<forall>p\<in>set (failedReports (snd (snd ?run))). uploadedBytes p = 0 \<and> percentage p = 0"
    unfolding failedAtZero_def by blast+
  then obtain p where p: "failedReports (snd (snd ?run)) = [p]"
    by (cases "failedReports (snd (snd ?run))") auto
  with z have "uploadedBytes p = 0 \<and> percentage p = 0" by simp
  with a b d p show ?thesis by blast
qed

section \<open>Progress events at the start and at the end\<close>





text \<open>
  What a chunked upload reports instead. Each \<open>uploading\<close> report is made after a part is
  stored and has a positive \<open>percentage\<close>. A run that throws reports \<open>failed\<close> once and
  neither \<open>completed\<close> nor \<open>paused\<close>; the \<open>failed\<close> report need not be its last event. A
  run that returns with the transfer aborted reports none of the three; any other run that
  returns makes one of these reports, \<open>completed\<close> or \<open>paused\<close>, as its last event.
\<close>

definition terminalReports :: "event list \<Rightarrow> ProgressInfo list" where
  "terminalReports tr = filter (\<lambda>p. status p \<noteq> Uploading) (reports tr)"


lemma terminalReports_append [simp]:
  "terminalReports (xs @ ys) = terminalReports xs @ terminalReports ys"
  by (simp add: terminalReports_def)








section \<open>Part uploads after an abort\<close>

text \<open>
  \<open>abortUpload\<close> sets \<open>isAborted\<close> in the step in which it sends the abort command, so the
  events of a run that stand behind the abort command happen with the flag set. What C6
  says of a run is that no part upload is among them.
\<close>

fun isAbort :: "event \<Rightarrow> bool" where
  "isAbort (AbortMultipartUpload b k u) = True"
| "isAbort e = False"

definition afterAbort :: "event list \<Rightarrow> event list" where
  "afterAbort tr = dropWhile (\<lambda>e. \<not> isAbort e) tr"

definition noUploadAfterAbort :: "event list \<Rightarrow> bool" where
  "noUploadAfterAbort tr = (partsSent (afterAbort tr) = [])"

text \<open>
  A file of one part; the caller calls \<open>abortUpload\<close> while the part task reads its byte
  range, which is after the guard of \<open>uploadPart\<close> and before the request is sent.
\<close>

definition abortEnv :: env where
  "abortEnv = (okEnv PART_SIZE)\<lparr>caller :=
      (\<lambda>a. if a = Reading 1 0 then CallAbort else NoCall)\<rparr>"

text \<open>
  C6 fails as stated: the part task had passed its guard when the flag was set, and it
  sends its request for part 1 after the abort command.
\<close>

theorem upload_sent_after_abort:
  "filter isCommand (snd (snd (uploadFile abortEnv (emptyManager blankState)
                                 ''photos'' ''a.bin'' ''./a.bin'')))
     = [CreateMultipartUpload ''photos'' ''a.bin'',
        AbortMultipartUpload ''photos'' ''a.bin'' ''id1'',
        UploadPartCmd ''photos'' ''a.bin'' ''id1'' 1 0 (int PART_SIZE)]
   \<and> \<not> noUploadAfterAbort (snd (snd (uploadFile abortEnv (emptyManager blankState)
                                         ''photos'' ''a.bin'' ''./a.bin'')))"
  by (simp add: noUploadAfterAbort_def afterAbort_def run_defs shared_defs input_defs
        abortEnv_def)

lemma partsSent_append: "partsSent (xs @ ys) = partsSent xs @ partsSent ys"
  by (induction xs rule: partsSent.induct) simp_all

lemma delays_append: "delays (xs @ ys) = delays xs @ delays ys"
  by (induction xs rule: delays.induct) simp_all

lemma abortUpload_partsSent:
  "abortUpload env m b k = (res, m', tr) \<Longrightarrow> partsSent tr = []"
  by (auto simp: abortUpload_def modify_def Let_def split: option.splits reply.splits)

lemma deliver_partsSent:
  "deliver env m b k c = (m', tr) \<Longrightarrow> partsSent tr = []"
  by (cases c) (auto simp: deliver_def split: prod.splits dest: abortUpload_partsSent)

lemma abortUpload_delays:
  "abortUpload env m b k = (res, m', tr) \<Longrightarrow> delays tr = []"
  by (auto simp: abortUpload_def modify_def Let_def split: option.splits reply.splits)

lemma deliver_delays:
  "deliver env m b k c = (m', tr) \<Longrightarrow> delays tr = []"
  by (cases c) (auto simp: deliver_def split: prod.splits dest: abortUpload_delays)

lemma storePart_delays: "storePart m r p e fs = (m', tr) \<Longrightarrow> delays tr = [] \<and> partsSent tr = []"
  by (auto simp: storePart_def Let_def)

definition hasAbort :: "event list \<Rightarrow> bool" where
  "hasAbort tr = (\<exists>e\<in>set tr. isAbort e)"

lemma afterAbort_append:
  "afterAbort (xs @ ys) = (if hasAbort xs then afterAbort xs @ ys else afterAbort ys)"
  by (auto simp: afterAbort_def hasAbort_def dropWhile_append)

lemma hasAbort_append [simp]: "hasAbort (xs @ ys) = (hasAbort xs \<or> hasAbort ys)"
  by (auto simp: hasAbort_def)

lemma partsSent_afterAbort: "length (partsSent (afterAbort tr)) \<le> length (partsSent tr)"
proof (induction tr rule: partsSent.induct)
  case 1
  show ?case by (simp add: afterAbort_def)
next
  case (2 b k u n off len es)
  then show ?case by (simp add: afterAbort_def)
qed (simp_all add: afterAbort_def)

lemma delays_afterAbort: "delays tr = [] \<Longrightarrow> delays (afterAbort tr) = []"
proof (induction tr rule: delays.induct)
  case 1
  show ?case by (simp add: afterAbort_def)
next
  case (2 d tr)
  then show ?case by simp
qed (auto simp: afterAbort_def)

lemma partsSent_afterAbort_nil: "partsSent tr = [] \<Longrightarrow> partsSent (afterAbort tr) = []"
  using partsSent_afterAbort [of tr] by simp

text \<open>
  The transfer whose object is \<open>r\<close> is the one the manager knows under the key \<open>sk\<close>, if
  it knows any: this is how \<open>multipartUpload\<close> enters its loop.
\<close>

definition linked :: "UploadState Manager \<Rightarrow> ref \<Rightarrow> string \<Rightarrow> bool" where
  "linked m r sk =
     (stateKey (bucket (objects m r)) (key (objects m r)) = sk
      \<and> (uploadStates m sk = None \<or> uploadStates m sk = Some r))"

lemma initiate_bucket_key:
  "initiateMultipartUpload env b k fp fs = (Inr st, tr) \<Longrightarrow> bucket st = b \<and> key st = k"
  by (auto simp: initiateMultipartUpload_def Let_def
           split: reply.splits option.splits if_splits)

lemma resume_bucket_key:
  "resumeMultipartUpload env m b k fp fs rid = (Inr st, tr) \<Longrightarrow> bucket st = b \<and> key st = k"
  by (auto simp: resumeMultipartUpload_def Let_def
           split: reply.splits option.splits if_splits)

lemma abortUpload_linked:
  assumes "abortUpload env m b k = (res, m', tr)" and "linked m r (stateKey b k)"
  shows "linked m' r (stateKey b k) \<and> (hasAbort tr \<longrightarrow> isAborted (objects m' r))"
  using assms
  by (auto simp: abortUpload_def linked_def modify_def hasAbort_def Let_def
           split: option.splits reply.splits)

lemma pauseUpload_linked:
  "linked m r sk \<Longrightarrow> linked (pauseUpload m b k) r sk"
  by (auto simp: pauseUpload_def linked_def modify_def split: option.splits)

lemma deliver_linked:
  assumes "deliver env m b k c = (m', tr)" and "linked m r (stateKey b k)"
  shows "linked m' r (stateKey b k) \<and> (hasAbort tr \<longrightarrow> isAborted (objects m' r))"
proof (cases c)
  case NoCall
  with assms show ?thesis by (simp add: deliver_def hasAbort_def)
next
  case CallPause
  with assms show ?thesis by (auto simp: deliver_def hasAbort_def pauseUpload_linked)
next
  case CallAbort
  obtain res ma tra where a: "abortUpload env m b k = (res, ma, tra)"
    by (cases "abortUpload env m b k") auto
  with CallAbort assms(1) have "m' = ma" "tr = tra" by (simp_all add: deliver_def)
  with abortUpload_linked [OF a assms(2)] show ?thesis by simp
qed

lemma hasAbort_simps [simp]:
  "hasAbort [] = False"
  "hasAbort (e # es) = (isAbort e \<or> hasAbort es)"
  by (simp_all add: hasAbort_def)

lemma storePart_linked:
  assumes "storePart m r p etag fs = (m', tr)" and "linked m r sk"
  shows "linked m' r sk \<and> \<not> hasAbort tr"
  using assms by (auto simp: storePart_def linked_def modify_def Let_def)

text \<open>
  For a run from \<open>m\<close> to \<open>m'\<close> with events \<open>tr\<close>: an abort command among the events means
  the flag is set afterwards; a run that starts with the flag set keeps it, sends at most
  \<open>n\<close> part uploads and sets no timer; and behind the first abort command stand at most
  \<open>n\<close> part uploads and no timer.
\<close>

definition abortBound :: "UploadState Manager \<Rightarrow> ref \<Rightarrow> string \<Rightarrow> nat
    \<Rightarrow> UploadState Manager \<Rightarrow> event list \<Rightarrow> bool" where
  "abortBound m r sk n m' tr =
     (linked m' r sk
      \<and> (hasAbort tr \<longrightarrow> isAborted (objects m' r))
      \<and> (isAborted (objects m r) \<longrightarrow>
           isAborted (objects m' r) \<and> length (partsSent tr) \<le> n \<and> delays tr = [])
      \<and> length (partsSent (afterAbort tr)) \<le> n \<and> delays (afterAbort tr) = [])"

lemma abortBound_seq:
  assumes "abortBound m r sk a m1 tr1" and "abortBound m1 r sk b m2 tr2"
  shows "abortBound m r sk (a + b) m2 (tr1 @ tr2)"
proof -
  have 1: "linked m2 r sk" using assms(2) by (simp add: abortBound_def)
  have 2: "hasAbort (tr1 @ tr2) \<longrightarrow> isAborted (objects m2 r)"
    using assms by (auto simp: abortBound_def)
  have 3: "isAborted (objects m r) \<longrightarrow>
             isAborted (objects m2 r) \<and> length (partsSent (tr1 @ tr2)) \<le> a + b
             \<and> delays (tr1 @ tr2) = []"
    using assms by (auto simp: abortBound_def partsSent_append delays_append)
  have 4: "length (partsSent (afterAbort (tr1 @ tr2))) \<le> a + b
           \<and> delays (afterAbort (tr1 @ tr2)) = []"
  proof (cases "hasAbort tr1")
    case True
    then have "isAborted (objects m1 r)" using assms(1) by (simp add: abortBound_def)
    then have "length (partsSent tr2) \<le> b \<and> delays tr2 = []"
      using assms(2) by (simp add: abortBound_def)
    moreover have "length (partsSent (afterAbort tr1)) \<le> a \<and> delays (afterAbort tr1) = []"
      using assms(1) by (simp add: abortBound_def)
    ultimately show ?thesis
      using True by (simp add: afterAbort_append partsSent_append delays_append)
  next
    case False
    moreover have "length (partsSent (afterAbort tr2)) \<le> b \<and> delays (afterAbort tr2) = []"
      using assms(2) by (simp add: abortBound_def)
    ultimately show ?thesis by (simp add: afterAbort_append)
  qed
  from 1 2 3 4 show ?thesis by (simp add: abortBound_def)
qed

lemma abortBound_nil: "linked m r sk \<Longrightarrow> abortBound m r sk 0 m []"
  by (simp add: abortBound_def afterAbort_def)

lemma abortBound_mono: "abortBound m r sk a m' tr \<Longrightarrow> a \<le> b \<Longrightarrow> abortBound m r sk b m' tr"
  by (auto simp: abortBound_def)

lemma abortBound_linked: "abortBound m r sk a m' tr \<Longrightarrow> linked m' r sk"
  by (simp add: abortBound_def)

lemma atWait_abortBound:
  assumes "atWait env m r a = (m', tr)" and "linked m r sk"
  shows "abortBound m r sk 0 m' tr"
proof -
  let ?b = "bucket (objects m r)" and ?k = "key (objects m r)"
  have d: "deliver env m ?b ?k (caller env a) = (m', tr)"
    using assms(1) by (simp add: atWait_def)
  have sk: "stateKey ?b ?k = sk" using assms(2) by (simp add: linked_def)
  have l: "linked m' r sk \<and> (hasAbort tr \<longrightarrow> isAborted (objects m' r))"
    using deliver_linked [OF d] assms(2) sk by simp
  have p: "partsSent tr = []" using d by (rule deliver_partsSent)
  have t: "delays tr = []" using d by (rule deliver_delays)
  show ?thesis
    using l p t deliver_isAborted [OF d, of r]
      partsSent_afterAbort_nil [OF p] delays_afterAbort [OF t]
    by (auto simp: abortBound_def)
qed

lemma storePart_abortBound:
  assumes "storePart m r p e fs = (m', tr)" and "linked m r sk"
  shows "abortBound m r sk 0 m' tr"
proof -
  have l: "linked m' r sk \<and> \<not> hasAbort tr"
    using storePart_linked [OF assms(1), of sk] assms(2) by blast
  have a: "isAborted (objects m' r) = isAborted (objects m r)"
    using storePart_isAborted [OF assms(1), of r] by simp
  have p: "partsSent tr = []" and t: "delays tr = []"
    using storePart_delays [OF assms(1)] by simp_all
  show ?thesis
    using l a p t partsSent_afterAbort_nil [OF p] delays_afterAbort [OF t]
    by (auto simp: abortBound_def)
qed

lemma readPart_abortBound:
  assumes "readPart env m r p fs rc = (m', tr)" and "linked m r sk"
  shows "abortBound m r sk 1 m' tr"
proof -
  obtain m1 tr1 where w: "atWait env m r (Reading p rc) = (m1, tr1)"
    by (cases "atWait env m r (Reading p rc)") auto
  have b1: "abortBound m r sk 0 m1 tr1"
    using w assms(2) by (rule atWait_abortBound)
  show ?thesis
  proof (cases "partReply env p rc = ReadThrows")
    case True
    with assms(1) w have "m' = m1" "tr = tr1" by (simp_all add: readPart_def Let_def)
    with b1 show ?thesis by (auto intro: abortBound_mono)
  next
    case False
    let ?cmd = "UploadPartCmd (bucket (objects m1 r)) (key (objects m1 r))
                  (uploadId (objects m1 r)) p ((p - 1) * PART_SIZE)
                  (min (int PART_SIZE) (int fs - int ((p - 1) * PART_SIZE)))"
    from False assms(1) w have e: "m' = m1" "tr = tr1 @ [?cmd]"
      by (auto simp: readPart_def Let_def split: part_reply.splits)
    have "abortBound m1 r sk 1 m1 [?cmd]"
      using abortBound_linked [OF b1] by (simp add: abortBound_def afterAbort_def)
    from abortBound_seq [OF b1 this] e show ?thesis by simp
  qed
qed

lemma catchPart_abortBound:
  assumes "catchPart env m r p rc e = (m', lg, again)" and "linked m r sk"
  shows "abortBound m r sk 0 m' (events lg)"
proof (cases "rc < 3 \<and> \<not> isAborted (objects m r)")
  case True
  obtain m1 tr1 where w: "atWait env m r (Backoff p rc) = (m1, tr1)"
    by (cases "atWait env m r (Backoff p rc)") auto
  with True assms(1) have e: "m' = m1" "events lg = Delay (1000 * (rc + 1)) # tr1"
    by (auto simp: catchPart_def)
  have b: "abortBound m r sk 0 m1 tr1"
    using w assms(2) by (rule atWait_abortBound)
  have "afterAbort (Delay (1000 * (rc + 1)) # tr1) = afterAbort tr1"
    by (simp add: afterAbort_def)
  with b True show ?thesis
    unfolding e by (simp add: abortBound_def)
next
  case False
  with assms(1) have "m' = m" "events lg = []"
    by (auto simp: catchPart_def)
  with abortBound_nil [OF assms(2)] show ?thesis by simp
qed

lemma settlePart_abortBound:
  assumes "settlePart env m r p fs rc = (m', lg, again)" and "linked m r sk"
  shows "abortBound m r sk 0 m' (events lg)"
proof (cases "partReply env p rc")
  case ReadThrows
  with assms(1) have "catchPart env m r p rc FsError = (m', lg, again)"
    by (simp add: settlePart_def)
  then show ?thesis using assms(2) by (rule catchPart_abortBound)
next
  case SendThrows
  obtain m1 tr1 where w: "atWait env m r (InFlight p rc) = (m1, tr1)"
    by (cases "atWait env m r (InFlight p rc)") auto
  obtain m2 l2 a2 where c: "catchPart env m1 r p rc S3Error = (m2, l2, a2)"
    by (cases "catchPart env m1 r p rc S3Error") auto
  from SendThrows assms(1) w c have e: "m' = m2" "events lg = tr1 @ events l2"
    by (auto simp: settlePart_def)
  have b1: "abortBound m r sk 0 m1 tr1"
    using w assms(2) by (rule atWait_abortBound)
  have "abortBound m1 r sk 0 m2 (events l2)"
    using c abortBound_linked [OF b1] by (rule catchPart_abortBound)
  from abortBound_seq [OF b1 this] e show ?thesis by simp
next
  case (PartReply etag)
  obtain m1 tr1 where w: "atWait env m r (InFlight p rc) = (m1, tr1)"
    by (cases "atWait env m r (InFlight p rc)") auto
  have b1: "abortBound m r sk 0 m1 tr1"
    using w assms(2) by (rule atWait_abortBound)
  show ?thesis
  proof (cases "truthy etag")
    case False
    obtain m2 l2 a2 where c: "catchPart env m1 r p rc (PartFailed p) = (m2, l2, a2)"
      by (cases "catchPart env m1 r p rc (PartFailed p)") auto
    from False PartReply assms(1) w c have e: "m' = m2" "events lg = tr1 @ events l2"
      by (auto simp: settlePart_def truthy_def split: option.splits)
    have "abortBound m1 r sk 0 m2 (events l2)"
      using c abortBound_linked [OF b1] by (rule catchPart_abortBound)
    from abortBound_seq [OF b1 this] e show ?thesis by simp
  next
    case True
    then obtain e where e: "etag = Some e" "e \<noteq> []"
      by (auto simp: truthy_def split: option.splits)
    obtain m2 tr2 where s: "storePart m1 r p e fs = (m2, tr2)"
      by (cases "storePart m1 r p e fs") auto
    from e PartReply assms(1) w s have eq: "m' = m2" "events lg = tr1 @ tr2"
      by (auto simp: settlePart_def)
    have "abortBound m1 r sk 0 m2 tr2"
      using s abortBound_linked [OF b1] by (rule storePart_abortBound)
    from abortBound_seq [OF b1 this] eq show ?thesis by simp
  qed
qed

lemma readParts_abortBound:
  "readParts env m r ps fs rc = (m', tr, started) \<Longrightarrow> linked m r sk \<Longrightarrow>
     abortBound m r sk (length ps) m' tr"
proof (induction ps arbitrary: m m' tr started)
  case Nil
  then show ?case by (simp add: abortBound_nil)
next
  case (Cons p ps)
  show ?case
  proof (cases "0 < rc \<and> isAborted (objects m r)")
    case True
    with Cons.prems have "readParts env m r ps fs rc = (m', tr, started)" by simp
    from Cons.IH [OF this Cons.prems(2)] show ?thesis
      by (rule abortBound_mono) simp
  next
    case False
    obtain m1 tr1 where a: "readPart env m r p fs rc = (m1, tr1)"
      by (cases "readPart env m r p fs rc") auto
    obtain m2 tr2 st2 where b: "readParts env m1 r ps fs rc = (m2, tr2, st2)"
      by (cases "readParts env m1 r ps fs rc") auto
    have "readParts env m r (p # ps) fs rc = (m2, tr1 @ tr2, p # st2)"
      by (subst readParts.simps) (simp only: False if_False a b prod.case)
    with Cons.prems have e: "m' = m2" "tr = tr1 @ tr2" by simp_all
    have b1: "abortBound m r sk 1 m1 tr1"
      using a Cons.prems(2) by (rule readPart_abortBound)
    have "abortBound m1 r sk (length ps) m2 tr2"
      using Cons.IH [OF b abortBound_linked [OF b1]] .
    from abortBound_seq [OF b1 this] e show ?thesis by simp
  qed
qed

lemma settleParts_abortBound:
  "settleParts env m r ps fs rc = (m', lg, retry) \<Longrightarrow> linked m r sk \<Longrightarrow>
     abortBound m r sk 0 m' (events lg)"
proof (induction ps arbitrary: m m' lg retry)
  case Nil
  then show ?case by (simp add: abortBound_nil)
next
  case (Cons p ps)
  obtain m1 l1 a1 where a: "settlePart env m r p fs rc = (m1, l1, a1)"
    by (cases "settlePart env m r p fs rc") auto
  obtain m2 l2 r2 where b: "settleParts env m1 r ps fs rc = (m2, l2, r2)"
    by (cases "settleParts env m1 r ps fs rc") auto
  from Cons.prems a b have e: "m' = m2" "lg = l1 @ l2" by simp_all
  have b1: "abortBound m r sk 0 m1 (events l1)"
    using a Cons.prems(2) by (rule settlePart_abortBound)
  have "abortBound m1 r sk 0 m2 (events l2)"
    using Cons.IH [OF b abortBound_linked [OF b1]] .
  from abortBound_seq [OF b1 this] e show ?case by simp
qed

text \<open>A task that comes back from its back-off with the flag set returns at the guard.\<close>

lemma readParts_aborted:
  "isAborted (objects m r) \<Longrightarrow> 0 < rc \<Longrightarrow> readParts env m r ps fs rc = (m, [], [])"
  by (induction ps) simp_all

lemma runTasks_aborted:
  "isAborted (objects m r) \<Longrightarrow> 0 < rc \<Longrightarrow> runTasks env m r ps fs rc = (m, [])"
  by (simp add: runTasks.simps [of env m r ps fs rc] readParts_aborted)

lemma runTasks_abortBound:
  "runTasks env m r ps fs rc = (m', lg) \<Longrightarrow> linked m r sk \<Longrightarrow>
     abortBound m r sk (length ps) m' (events lg)"
proof (induction rule: runTasks_induct)
  case (final m ps rc m1 tr1 started m2 lg2)
  have b1: "abortBound m r sk (length ps) m1 tr1"
    using final(1,3) by (rule readParts_abortBound)
  have "abortBound m1 r sk 0 m2 (events lg2)"
    using final(2) abortBound_linked [OF b1] by (rule settleParts_abortBound)
  from abortBound_seq [OF b1 this] show ?case by simp
next
  case (again m ps rc m1 tr1 started m2 lg2 retry m3 lg3)
  have b1: "abortBound m r sk (length ps) m1 tr1"
    using again(1,7) by (rule readParts_abortBound)
  have "abortBound m1 r sk 0 m2 (events lg2)"
    using again(2) abortBound_linked [OF b1] by (rule settleParts_abortBound)
  from abortBound_seq [OF b1 this]
  have b2: "abortBound m r sk (length ps) m2 (tr1 @ events lg2)" by simp
  have len: "length retry \<le> length ps"
    using readParts_started [OF again(1)] settleParts_retry_sub [OF again(2)] by linarith
  have ih: "abortBound m2 r sk (length retry) m3 (events lg3)"
    using again(6) abortBound_linked [OF b2] by simp
  show ?case
  proof (cases "isAborted (objects m2 r)")
    case True
    then have "runTasks env m2 r retry fs (rc + 1) = (m2, [])"
      by (intro runTasks_aborted) simp_all
    with again(5) have "m3 = m2" "lg3 = []" by simp_all
    with b2 show ?thesis by simp
  next
    case False
    then have na: "\<not> hasAbort (tr1 @ events lg2)" and nm: "\<not> isAborted (objects m r)"
      using b2 by (auto simp: abortBound_def)
    have "linked m3 r sk" using ih by (simp add: abortBound_def)
    moreover have "hasAbort ((tr1 @ events lg2) @ events lg3) \<longrightarrow> isAborted (objects m3 r)"
      using na ih by (simp add: abortBound_def)
    moreover have "length (partsSent (afterAbort ((tr1 @ events lg2) @ events lg3)))
                     \<le> length ps
                   \<and> delays (afterAbort ((tr1 @ events lg2) @ events lg3)) = []"
      using na ih len afterAbort_append [of "tr1 @ events lg2" "events lg3"]
      by (simp add: abortBound_def)
    ultimately show ?thesis using nm by (simp add: abortBound_def)
  qed
qed

lemma uploadBatch_abortBound:
  assumes "uploadBatch env m r ps fs = (m', lg)" and "linked m r sk"
  shows "abortBound m r sk (length ps) m' (events lg)"
proof (cases "isPaused (objects m r) \<or> isAborted (objects m r)")
  case True
  with assms(1) have "m' = m" "lg = []" by (simp_all add: uploadBatch_def)
  with abortBound_nil [OF assms(2)] show ?thesis
    by (auto intro: abortBound_mono)
next
  case False
  with assms(1) have "runTasks env m r ps fs 0 = (m', lg)" by (simp add: uploadBatch_def)
  then show ?thesis using assms(2) by (rule runTasks_abortBound)
qed

lemma collectParts_length:
  "length parts \<le> MAX_CONCURRENT_UPLOADS \<Longrightarrow>
     length (collectParts uploaded tp tempNext parts) \<le> MAX_CONCURRENT_UPLOADS"
proof (induction uploaded tp tempNext parts rule: collectParts.induct)
  case (1 uploaded tp tempNext parts)
  show ?case
  proof (cases "length parts < MAX_CONCURRENT_UPLOADS \<and> tempNext \<le> tp")
    case False
    then have "collectParts uploaded tp tempNext parts = parts"
      by (subst collectParts.simps) (simp only: if_False)
    with "1.prems" show ?thesis by simp
  next
    case True
    then have "length (if tempNext \<notin> uploaded then parts @ [tempNext] else parts)
                 \<le> MAX_CONCURRENT_UPLOADS"
      by simp
    from "1.IH" [OF True this] True show ?thesis
      by (simp add: collectParts.simps [of uploaded tp tempNext parts])
  qed
qed

lemma modify_npn_linked:
  "linked m r sk \<Longrightarrow> linked (modify m r (\<lambda>s. s\<lparr>nextPartNumber := n\<rparr>)) r sk"
  by (simp add: linked_def modify_def)

lemma modify_npn_abortBound:
  assumes "abortBound (modify m r (\<lambda>s. s\<lparr>nextPartNumber := n\<rparr>)) r sk a m' tr"
  shows "abortBound m r sk a m' tr"
  using assms by (simp add: abortBound_def modify_def)

lemma uploadLoop_abortBound:
  assumes "uploadLoop env m r fs tp = (m', lg)" and "linked m r sk"
  shows "abortBound m r sk MAX_CONCURRENT_UPLOADS m' (events lg)"
  using assms
proof (induction rule: uploadLoop_induct)
  case (stop m)
  from abortBound_nil [OF stop(2)] show ?case by (auto intro: abortBound_mono)
next
  case (none m)
  from abortBound_nil [OF none(3)] show ?case by (auto intro: abortBound_mono)
next
  case (rejected m n parts m1 m2 lg)
  have len: "length parts \<le> MAX_CONCURRENT_UPLOADS"
    unfolding rejected(3) by (rule collectParts_length) (simp add: MAX_CONCURRENT_UPLOADS_def)
  have "linked m1 r sk" unfolding rejected(4) using rejected(7) by (rule modify_npn_linked)
  from uploadBatch_abortBound [OF rejected(5) this]
  have "abortBound m r sk (length parts) m2 (events lg)"
    unfolding rejected(4) by (rule modify_npn_abortBound)
  then show ?case using len by (rule abortBound_mono)
next
  case (finished m n parts m1 m2 lg)
  have len: "length parts \<le> MAX_CONCURRENT_UPLOADS"
    unfolding finished(3) by (rule collectParts_length) (simp add: MAX_CONCURRENT_UPLOADS_def)
  have "linked m1 r sk" unfolding finished(4) using finished(8) by (rule modify_npn_linked)
  from uploadBatch_abortBound [OF finished(5) this]
  have "abortBound m r sk (length parts) m2 (events lg)"
    unfolding finished(4) by (rule modify_npn_abortBound)
  then show ?case using len by (rule abortBound_mono)
next
  case (again m n parts m1 m2 lg m3 lg')
  have len: "length parts \<le> MAX_CONCURRENT_UPLOADS"
    unfolding again(3) by (rule collectParts_length) (simp add: MAX_CONCURRENT_UPLOADS_def)
  have "linked m1 r sk" unfolding again(4) using again(10) by (rule modify_npn_linked)
  from uploadBatch_abortBound [OF again(5) this]
  have b: "abortBound m r sk (length parts) m2 (events lg)"
    unfolding again(4) by (rule modify_npn_abortBound)
  then have l2: "linked m2 r sk" by (simp add: abortBound_def)
  have ih: "abortBound m2 r sk MAX_CONCURRENT_UPLOADS m3 (events lg')"
    using again(9) l2 by simp
  show ?case
  proof (cases "isAborted (objects m2 r)")
    case True
    then have "uploadLoop env m2 r fs tp = (m2, [])"
      by (simp add: uploadLoop.simps [of env m2 r fs tp])
    with again(8) have "m3 = m2" "lg' = []" by simp_all
    with b len show ?thesis by (auto intro: abortBound_mono)
  next
    case False
    then have na: "\<not> hasAbort (events lg)" and nm: "\<not> isAborted (objects m r)"
      using b by (auto simp: abortBound_def)
    have "linked m3 r sk" using ih by (simp add: abortBound_def)
    moreover have "hasAbort (events lg @ events lg') \<longrightarrow> isAborted (objects m3 r)"
      using na ih by (simp add: abortBound_def)
    moreover have "length (partsSent (afterAbort (events lg @ events lg')))
                     \<le> MAX_CONCURRENT_UPLOADS
                   \<and> delays (afterAbort (events lg @ events lg')) = []"
      using na ih by (simp add: afterAbort_append abortBound_def)
    ultimately show ?thesis using nm by (simp add: abortBound_def)
  qed
qed

text \<open>Events that are neither an abort command, nor a part upload, nor a timer.\<close>

definition silent :: "event list \<Rightarrow> bool" where
  "silent tr = (\<not> hasAbort tr \<and> partsSent tr = [] \<and> delays tr = [])"

lemma afterAbort_silent:
  assumes "silent cl"
  shows "partsSent (afterAbort (xs @ cl @ ys)) = partsSent (afterAbort (xs @ ys))
       \<and> delays (afterAbort (xs @ cl @ ys)) = delays (afterAbort (xs @ ys))"
proof (cases "hasAbort xs")
  case True
  then show ?thesis
    using assms by (simp add: afterAbort_append silent_def partsSent_append delays_append)
next
  case False
  then show ?thesis
    using assms by (simp add: afterAbort_append silent_def)
qed

lemma opening_silent: "\<forall>e\<in>set tr0. openingEvent e \<Longrightarrow> silent tr0"
proof (induction tr0)
  case Nil
  show ?case by (simp add: silent_def)
next
  case (Cons e es)
  then show ?case by (cases e) (simp_all add: silent_def)
qed

lemma startState_silent:
  "startState env m b k fp fs rid = (i0, tr0) \<Longrightarrow> silent tr0"
  by (auto split: if_splits intro: opening_silent dest: resume_opening initiate_opening)

lemma startState_linked:
  assumes "startState env m b k fp fs rid = (Inr st, tr0)"
  shows "linked (registered m (stateKey b k) st) (nextRef m) (stateKey b k)"
proof -
  have "bucket st = b \<and> key st = k"
    using assms by (auto split: if_splits dest: resume_bucket_key initiate_bucket_key)
  then show ?thesis by (simp add: linked_def)
qed

lemma closing_silent:
  "silent [failedEvent fp fs]"
  "silent [pausedEvent fp fs n tp]"
  "silent [CompleteMultipartUpload b k u ps, failedEvent fp fs]"
  "silent [CompleteMultipartUpload b k u ps, completedEvent fp fs tp]"
  by (simp_all add: silent_def failedEvent_def pausedEvent_def completedEvent_def)

lemma silent_bound:
  assumes "silent pre" and "silent cl"
    and "length (partsSent (afterAbort (xs @ ys))) \<le> n \<and> delays (afterAbort (xs @ ys)) = []"
  shows "length (partsSent (afterAbort (pre @ xs @ cl @ ys))) \<le> n
       \<and> delays (afterAbort (pre @ xs @ cl @ ys)) = []"
proof -
  have "partsSent (afterAbort (pre @ xs @ cl @ ys)) = partsSent (afterAbort (xs @ cl @ ys))
      \<and> delays (afterAbort (pre @ xs @ cl @ ys)) = delays (afterAbort (xs @ cl @ ys))"
    using afterAbort_silent [OF assms(1), of "[]" "xs @ cl @ ys"] by simp
  with afterAbort_silent [OF assms(2), of xs ys] assms(3) show ?thesis by simp
qed

lemma multipartUpload_afterAbort:
  assumes "multipartUpload env m b k fp fs rid = (res, m', tr)"
  shows "length (partsSent (afterAbort tr)) \<le> MAX_CONCURRENT_UPLOADS
       \<and> delays (afterAbort tr) = []"
proof -
  have loop: "length (partsSent (afterAbort (events lg))) \<le> MAX_CONCURRENT_UPLOADS
            \<and> delays (afterAbort (events lg)) = []"
    if "startState env m b k fp fs rid = (Inr st, tr0)"
      and "uploadLoop env (registered m (stateKey b k) st) (nextRef m) fs (calcTotalParts fs)
             = (m2, lg)" for st tr0 m2 lg
    using uploadLoop_abortBound [OF that(2) startState_linked [OF that(1)]]
    by (simp add: abortBound_def)
  have nil: "length (partsSent (afterAbort ([] @ []))) \<le> MAX_CONCURRENT_UPLOADS
           \<and> delays (afterAbort ([] @ [])) = []"
    by (simp add: afterAbort_def)
  from assms show ?thesis
  proof (cases rule: multipartUpload_cases)
    case (initFailed e tr0)
    from silent_bound [OF startState_silent [OF initFailed(1)] closing_silent(1) nil]
    show ?thesis by (simp add: initFailed)
  next
    case (openFailed st tr0)
    from openFailed(3) have "tr = tr0 \<or> tr = tr0 @ [failedEvent fp fs]"
      by (auto simp: catchBlock_def split: if_splits)
    moreover have "silent []" by (simp add: silent_def)
    ultimately show ?thesis
      using silent_bound [OF startState_silent [OF openFailed(1)] closing_silent(1) nil,
              of fp fs]
        silent_bound [OF startState_silent [OF openFailed(1)] \<open>silent []\<close> nil]
      by auto
  next
    case (rejected st tr0 m2 lg e ab)
    have s: "silent (if ab then [] else [failedEvent fp fs])"
      by (simp add: silent_def failedEvent_def)
    have "length (partsSent (afterAbort (untilRejection lg @ afterRejection lg)))
            \<le> MAX_CONCURRENT_UPLOADS
          \<and> delays (afterAbort (untilRejection lg @ afterRejection lg)) = []"
      using loop [OF rejected(1) rejected(3)] by (simp add: events_split [symmetric])
    from silent_bound [OF startState_silent [OF rejected(1)] s this]
    show ?thesis by (simp add: rejected)
  next
    case (aborted st tr0 m2 lg)
    have s: "silent []" by (simp add: silent_def)
    have l: "length (partsSent (afterAbort (events lg @ []))) \<le> MAX_CONCURRENT_UPLOADS
           \<and> delays (afterAbort (events lg @ [])) = []"
      using loop [OF aborted(1) aborted(3)] by simp
    from silent_bound [OF startState_silent [OF aborted(1)] s l]
    show ?thesis by (simp add: aborted)
  next
    case (paused st tr0 m2 lg)
    have l: "length (partsSent (afterAbort (events lg @ []))) \<le> MAX_CONCURRENT_UPLOADS
           \<and> delays (afterAbort (events lg @ [])) = []"
      using loop [OF paused(1) paused(3)] by simp
    from silent_bound [OF startState_silent [OF paused(1)] closing_silent(2) l]
    show ?thesis by (simp add: paused)
  next
    case (incomplete st tr0 m2 lg)
    have l: "length (partsSent (afterAbort (events lg @ []))) \<le> MAX_CONCURRENT_UPLOADS
           \<and> delays (afterAbort (events lg @ [])) = []"
      using loop [OF incomplete(1) incomplete(3)] by simp
    from silent_bound [OF startState_silent [OF incomplete(1)] closing_silent(1) l]
    show ?thesis by (simp add: incomplete)
  next
    case (completeFailed st tr0 m2 lg)
    have l: "length (partsSent (afterAbort (events lg @ []))) \<le> MAX_CONCURRENT_UPLOADS
           \<and> delays (afterAbort (events lg @ [])) = []"
      using loop [OF completeFailed(1) completeFailed(3)] by simp
    from silent_bound [OF startState_silent [OF completeFailed(1)] closing_silent(3) l]
    show ?thesis by (simp add: completeFailed)
  next
    case (completed st tr0 m2 lg)
    have l: "length (partsSent (afterAbort (events lg @ []))) \<le> MAX_CONCURRENT_UPLOADS
           \<and> delays (afterAbort (events lg @ [])) = []"
      using loop [OF completed(1) completed(3)] by simp
    from silent_bound [OF startState_silent [OF completed(1)] closing_silent(4) l]
    show ?thesis by (simp add: completed)
  qed
qed

text \<open>
  C6, as amended, for the copy with the abort flag and for the state object a run of
  \<open>multipartUpload\<close> works on. With \<open>isAborted\<close> set in that object, the transfer loop
  starts no further batch, a batch starts no task, a task that comes back from its
  back-off returns at the guard of \<open>uploadPart\<close>, and the \<open>catch\<close> block of a task whose
  attempt has failed sets no timer and throws. A task that had passed the guard when the
  flag was set and has not sent its request yet still sends it. So behind an abort command
  that the caller sends while part tasks of the run wait, there are at most
  \<open>MAX_CONCURRENT_UPLOADS\<close> part uploads, those of the batch that was running, and no
  back-off timer. (A later \<open>resumeUpload\<close> is another run, on a new state object.)
\<close>

theorem aborted_stops_new_uploads:
  "(isAborted (objects m r) \<longrightarrow>
      uploadLoop env m r fs tp = (m, [])
    \<and> uploadBatch env m r parts fs = (m, [])
    \<and> (0 < rc \<longrightarrow> runTasks env m r parts fs rc = (m, []))
    \<and> catchPart env m r p rc e = (m, [Rejected e True], False))
   \<and> (case multipartUpload env m b k fp fs rid of (res, m', tr) \<Rightarrow>
         length (partsSent (afterAbort tr)) \<le> MAX_CONCURRENT_UPLOADS
       \<and> delays (afterAbort tr) = [])"
proof (intro conjI impI)
  assume a: "isAborted (objects m r)"
  then show "uploadLoop env m r fs tp = (m, [])"
    by (simp add: uploadLoop.simps [of env m r fs tp])
  from a show "uploadBatch env m r parts fs = (m, [])"
    by (simp add: uploadBatch_def)
  from a show "catchPart env m r p rc e = (m, [Rejected e True], False)"
    by (simp add: catchPart_def)
  assume "0 < rc"
  with a show "runTasks env m r parts fs rc = (m, [])"
    by (rule runTasks_aborted)
next
  show "case multipartUpload env m b k fp fs rid of (res, m', tr) \<Rightarrow>
         length (partsSent (afterAbort tr)) \<le> MAX_CONCURRENT_UPLOADS
       \<and> delays (afterAbort tr) = []"
    using multipartUpload_afterAbort by (auto split: prod.splits)
qed

text \<open>
  The paused transfer with gaps, aborted. And a file of one part whose first request the
  store refuses, where the caller calls \<open>abortUpload\<close> while the task waits for its
  timer: the request is not sent again.
\<close>

definition abortedState :: UploadState where
  "abortedState = gapState\<lparr>isAborted := True\<rparr>"

definition backoffAbortEnv :: env where
  "backoffAbortEnv = (okEnv PART_SIZE)\<lparr>
      partReply := (\<lambda>p a. if a = 0 then SendThrows else PartReply (Some ''etag'')),
      caller := (\<lambda>a. if a = Backoff 1 0 then CallAbort else NoCall)\<rparr>"

theorem aborted_stops_new_uploads_witness:
  "isAborted (objects (oneTransfer abortedState) 0)
   \<and> uploadLoop gapEnv (oneTransfer abortedState) 0 (5 * PART_SIZE) 5
       = (oneTransfer abortedState, [])
   \<and> runTasks gapEnv (oneTransfer abortedState) 0 [1, 3, 5] (5 * PART_SIZE) 1
       = (oneTransfer abortedState, [])
   \<and> catchPart gapEnv (oneTransfer abortedState) 0 1 0 S3Error
       = (oneTransfer abortedState, [Rejected S3Error True], False)
   \<and> filter isCommand (snd (snd (uploadFile backoffAbortEnv (emptyManager blankState)
                                   ''photos'' ''a.bin'' ''./a.bin'')))
       = [CreateMultipartUpload ''photos'' ''a.bin'',
          UploadPartCmd ''photos'' ''a.bin'' ''id1'' 1 0 (int PART_SIZE),
          AbortMultipartUpload ''photos'' ''a.bin'' ''id1'']
   \<and> partsSent (afterAbort (snd (snd (uploadFile abortEnv (emptyManager blankState)
                                         ''photos'' ''a.bin'' ''./a.bin'')))) = [1]"
proof -
  have a: "isAborted (objects (oneTransfer abortedState) 0)"
    by (simp add: oneTransfer_def abortedState_def)
  have b: "filter isCommand (snd (snd (uploadFile backoffAbortEnv (emptyManager blankState)
                                   ''photos'' ''a.bin'' ''./a.bin'')))
       = [CreateMultipartUpload ''photos'' ''a.bin'',
          UploadPartCmd ''photos'' ''a.bin'' ''id1'' 1 0 (int PART_SIZE),
          AbortMultipartUpload ''photos'' ''a.bin'' ''id1'']"
    by (simp add: run_defs shared_defs input_defs backoffAbortEnv_def)
  have c: "partsSent (afterAbort (snd (snd (uploadFile abortEnv (emptyManager blankState)
                                         ''photos'' ''a.bin'' ''./a.bin'')))) = [1]"
    by (simp add: afterAbort_def run_defs shared_defs input_defs abortEnv_def)
  from aborted_stops_new_uploads [of "oneTransfer abortedState" 0 gapEnv "5 * PART_SIZE" 5
         "[1, 3, 5]" 1 1 S3Error, THEN conjunct1] a b c
    aborted_stops_new_uploads [of "oneTransfer abortedState" 0 gapEnv "5 * PART_SIZE" 5
         "[1, 3, 5]" 0 1 S3Error, THEN conjunct1]
  show ?thesis by simp
qed

text \<open>
  The flag belongs to the state object, and \<open>resumeMultipartUpload\<close> builds a new one with
  \<open>isAborted\<close> false. When the transfer is still registered after an abort, because the
  store refused the abort command, \<open>resumeUpload\<close> sends the missing parts.
\<close>

lemma resume_after_abort_sends_parts:
  "partsSent (snd (snd (resumeUpload gapEnv (oneTransfer abortedState) ''photos'' ''a.bin'')))
     = [1, 3, 5]"
  by (simp add: run_defs shared_defs input_defs abortedState_def)

section \<open>Resuming a transfer that has gaps\<close>

text \<open>The part numbers a state has stored.\<close>

definition stored :: "'a UploadState_v1_scheme \<Rightarrow> nat set" where
  "stored st = PartNumber ` set (uploadedParts st)"

text \<open>Nobody calls pause or abort during the run.\<close>

definition quiet :: "env \<Rightarrow> bool" where
  "quiet env = (\<forall>a. caller env a = NoCall)"

text \<open>Attempt \<open>a\<close> at part \<open>p\<close> is answered with an \<open>ETag\<close>.\<close>

definition answered :: "env \<Rightarrow> nat \<Rightarrow> nat \<Rightarrow> bool" where
  "answered env p a = (\<exists>e. e \<noteq> [] \<and> partReply env p a = PartReply (Some e))"

definition pushPart :: "nat \<Rightarrow> string \<Rightarrow> 'a UploadState_v1_scheme \<Rightarrow> 'a UploadState_v1_scheme" where
  "pushPart p e s =
     s\<lparr>uploadedParts := sort_key PartNumber (uploadedParts s @ [\<lparr>PartNumber = p, ETag = e\<rparr>])\<rparr>"

lemma storePart_pushPart:
  "fst (storePart m r p e fs) = modify m r (pushPart p e)"
  by (simp add: storePart_def pushPart_def [abs_def] Let_def)

lemma stored_pushPart [simp]: "stored (pushPart p e s) = insert p (stored s)"
  by (auto simp: stored_def pushPart_def)

text \<open>Safety, in every environment: only parts of the batch are sent, and stored parts stay.\<close>

lemma deliver_uploadedParts:
  "deliver env m b k c = (m', tr) \<Longrightarrow>
     uploadedParts (objects m' x) = uploadedParts (objects m x)"
  by (cases c)
     (auto simp: deliver_def pauseUpload_def abortUpload_def modify_def Let_def
           split: prod.splits option.splits reply.splits)

lemma atWait_uploadedParts:
  "atWait env m r a = (m', tr) \<Longrightarrow>
     uploadedParts (objects m' x) = uploadedParts (objects m x) \<and> partsSent tr = []"
  unfolding atWait_def using deliver_uploadedParts deliver_partsSent by blast

lemma storePart_stored:
  "storePart m r p e fs = (m', tr) \<Longrightarrow>
     stored (objects m' r) = insert p (stored (objects m r)) \<and> partsSent tr = []"
  by (auto simp: storePart_def modify_def Let_def stored_def)

lemma steps_safe:
  "steps2 env r fs P m lg m' \<Longrightarrow>
     set (partsSent (events lg)) \<subseteq> P \<and> stored (objects m r) \<subseteq> stored (objects m' r)
     \<and> stored (objects m' r) \<subseteq> P \<union> stored (objects m r)"
proof (induction rule: steps.induct)
  case (wait m a m1 tr l m')
  from atWait_uploadedParts [OF wait(1), of r] wait(3) show ?case
    by (auto simp: partsSent_append stored_def)
next
  case (store p e m m1 tr l m')
  from storePart_stored [OF store(3)] store(1,5) show ?case
    by (auto simp: partsSent_append)
qed auto

lemma uploadBatch_safe:
  "uploadBatch env m r ps fs = (m', lg) \<Longrightarrow>
     set (partsSent (events lg)) \<subseteq> set ps \<and> stored (objects m r) \<subseteq> stored (objects m' r)
     \<and> stored (objects m' r) \<subseteq> set ps \<union> stored (objects m r)"
  by (drule uploadBatch_steps, drule steps_safe) simp

lemma collectParts_set:
  "set parts \<subseteq> {1..tp} - U \<Longrightarrow> 1 \<le> tempNext \<Longrightarrow>
     set (collectParts U tp tempNext parts) \<subseteq> {1..tp} - U"
proof (induction U tp tempNext parts rule: collectParts.induct)
  case (1 uploaded tp tempNext parts)
  show ?case
  proof (cases "length parts < MAX_CONCURRENT_UPLOADS \<and> tempNext \<le> tp")
    case False
    then have "collectParts uploaded tp tempNext parts = parts"
      by (subst collectParts.simps) (simp only: if_False)
    with "1.prems" show ?thesis by simp
  next
    case True
    have "set (if tempNext \<notin> uploaded then parts @ [tempNext] else parts)
            \<subseteq> {1..tp} - uploaded"
      using "1.prems" True by auto
    from "1.IH" [OF True this] True show ?thesis
      by (simp add: collectParts.simps [of uploaded tp tempNext parts])
  qed
qed

lemma modify_npn_stored [simp]:
  "stored (objects (modify m r (\<lambda>s. s\<lparr>nextPartNumber := n\<rparr>)) x) = stored (objects m x)"
  by (simp add: modify_def stored_def)

lemma batch_parts_missing:
  assumes "findNextPart (stored (objects m r)) (nextPartNumber (objects m r)) tp = Some n"
  shows "set (collectParts (stored (objects m r)) tp (n + 1) [n])
           \<subseteq> {1..tp} - stored (objects m r)"
  using findNextPart_Some [OF assms] by (intro collectParts_set) auto

lemma uploadLoop_safe:
  "uploadLoop env m r fs tp = (m', lg) \<Longrightarrow>
     set (partsSent (events lg)) \<subseteq> {1..tp} - stored (objects m r)
     \<and> stored (objects m r) \<subseteq> stored (objects m' r)"
proof (induction rule: uploadLoop_induct)
  case (stop m)
  show ?case by simp
next
  case (none m)
  show ?case by simp
next
  case (rejected m n parts m1 m2 lg)
  have "set parts \<subseteq> {1..tp} - stored (objects m r)"
    using batch_parts_missing [of m r tp n] rejected(2,3) by (simp add: stored_def)
  with uploadBatch_safe [OF rejected(5)] rejected(4) show ?case by auto
next
  case (finished m n parts m1 m2 lg)
  have "set parts \<subseteq> {1..tp} - stored (objects m r)"
    using batch_parts_missing [of m r tp n] finished(2,3) by (simp add: stored_def)
  with uploadBatch_safe [OF finished(5)] finished(4) show ?case by auto
next
  case (again m n parts m1 m2 lg m3 lg')
  have "set parts \<subseteq> {1..tp} - stored (objects m r)"
    using batch_parts_missing [of m r tp n] again(2,3) by (simp add: stored_def)
  with uploadBatch_safe [OF again(5)] again(4) again(9) show ?case
    by (auto simp: partsSent_append)
qed

text \<open>Liveness, when nobody interferes and every part is answered within its four attempts.\<close>

definition answeredInTime :: "env \<Rightarrow> bool" where
  "answeredInTime env = (\<forall>p. \<exists>a\<le>3. answered env p a)"

lemma atWait_quiet: "quiet env \<Longrightarrow> atWait env m r a = (m, [])"
  by (simp add: quiet_def atWait_def deliver_def)

text \<open>What a batch leaves behind: the flags and the cursor as they were, the parts of the
  batch stored in addition, one entry each.\<close>

definition pushed :: "UploadState Manager \<Rightarrow> ref \<Rightarrow> nat list \<Rightarrow> UploadState Manager \<Rightarrow> bool" where
  "pushed m r ps m' =
     (isPaused (objects m' r) = isPaused (objects m r)
      \<and> isAborted (objects m' r) = isAborted (objects m r)
      \<and> nextPartNumber (objects m' r) = nextPartNumber (objects m r)
      \<and> bucket (objects m' r) = bucket (objects m r)
      \<and> key (objects m' r) = key (objects m r)
      \<and> uploadId (objects m' r) = uploadId (objects m r)
      \<and> stored (objects m' r) = stored (objects m r) \<union> set ps
      \<and> length (uploadedParts (objects m' r)) = length (uploadedParts (objects m r)) + length ps)"

lemma pushed_one: "pushed m r [p] (modify m r (pushPart p e))"
  by (simp add: pushed_def modify_def pushPart_def stored_def)

lemma pushed_nil: "pushed m r [] m"
  by (simp add: pushed_def)

lemma pushed_cons: "pushed m r [p] m1 \<Longrightarrow> pushed m1 r ps m2 \<Longrightarrow> pushed m r (p # ps) m2"
  by (auto simp: pushed_def)

lemma pushed_split:
  assumes "pushed m r (filter Q ps) m1" and "pushed m1 r (filter (\<lambda>p. \<not> Q p) ps) m2"
  shows "pushed m r ps m2"
proof -
  have "set (filter Q ps) \<union> set (filter (\<lambda>p. \<not> Q p) ps) = set ps" by auto
  moreover have "length (filter Q ps) + length (filter (\<lambda>p. \<not> Q p) ps) = length ps"
    by (rule sum_length_filter_compl)
  ultimately show ?thesis
    using assms unfolding pushed_def by (simp add: Un_assoc)
qed

lemma readPart_quiet:
  assumes "quiet env" and "readPart env m r p fs rc = (m', tr)"
  shows "m' = m \<and> set (partsSent tr) \<subseteq> {p}
       \<and> (partReply env p rc \<noteq> ReadThrows \<longrightarrow> partsSent tr = [p])"
  using assms(2)
  by (auto simp: readPart_def atWait_quiet [OF assms(1)] Let_def split: part_reply.splits)

lemma readParts_quiet:
  "readParts env m r ps fs rc = (m', tr, started) \<Longrightarrow> quiet env \<Longrightarrow>
   \<not> isAborted (objects m r) \<Longrightarrow>
     m' = m \<and> started = ps
     \<and> (\<forall>p\<in>set ps. partReply env p rc \<noteq> ReadThrows \<longrightarrow> p \<in> set (partsSent tr))"
proof (induction ps arbitrary: m' tr started)
  case Nil
  then show ?case by simp
next
  case (Cons p ps)
  obtain m1 tr1 where a: "readPart env m r p fs rc = (m1, tr1)"
    by (cases "readPart env m r p fs rc") auto
  from readPart_quiet [OF Cons.prems(2) a]
  have m1: "m1 = m" and s1: "partReply env p rc \<noteq> ReadThrows \<longrightarrow> partsSent tr1 = [p]"
    by simp_all
  obtain m2 tr2 st2 where b: "readParts env m r ps fs rc = (m2, tr2, st2)"
    by (cases "readParts env m r ps fs rc") auto
  from Cons.prems(1,3) a b m1 have e: "m' = m2" "tr = tr1 @ tr2" "started = p # st2"
    by simp_all
  from Cons.IH [OF b Cons.prems(2,3)] e s1 show ?case
    by (auto simp: partsSent_append)
qed

lemma settlePart_quiet:
  assumes "settlePart env m r p fs rc = (m', lg, again)" and "quiet env"
    and "\<not> isAborted (objects m r)" and "\<exists>a. rc \<le> a \<and> a \<le> 3 \<and> answered env p a"
  shows "rejection lg = None \<and> partsSent (events lg) = []
       \<and> (if answered env p rc then \<not> again \<and> (\<exists>e. m' = modify m r (pushPart p e))
          else again \<and> m' = m)"
proof (cases "answered env p rc")
  case True
  then obtain e where e: "e \<noteq> []" "partReply env p rc = PartReply (Some e)"
    by (auto simp: answered_def)
  obtain m2 tr2 where s: "storePart m r p e fs = (m2, tr2)"
    by (cases "storePart m r p e fs") auto
  have "m2 = modify m r (pushPart p e)"
    using storePart_pushPart [of m r p e fs] s by simp
  moreover have "partsSent tr2 = []" using storePart_stored [OF s] by simp
  moreover have "m' = m2" "lg = map Event tr2" "\<not> again"
    using assms(1) e s by (auto simp: settlePart_def atWait_quiet [OF assms(2)])
  ultimately show ?thesis using True by auto
next
  case False
  from assms(4) obtain a where a: "rc \<le> a" "a \<le> 3" "answered env p a" by blast
  with False have "a \<noteq> rc" by blast
  with a have rc: "rc < 3" by linarith
  have c: "catchPart env m r p rc e = (m, [Event (Delay (1000 * (rc + 1)))], True)" for e
    using rc assms(3) by (simp add: catchPart_def atWait_quiet [OF assms(2)])
  have "m' = m \<and> lg = [Event (Delay (1000 * (rc + 1)))] \<and> again"
    using assms(1) False c
    by (auto simp: settlePart_def atWait_quiet [OF assms(2)] answered_def
             split: part_reply.splits option.splits if_splits)
  with False show ?thesis by simp
qed

lemma settleParts_quiet:
  "settleParts env m r ps fs rc = (m', lg, retry) \<Longrightarrow> quiet env \<Longrightarrow>
   \<not> isAborted (objects m r) \<Longrightarrow>
   \<forall>p\<in>set ps. \<exists>a. rc \<le> a \<and> a \<le> 3 \<and> answered env p a \<Longrightarrow>
     rejection lg = None \<and> partsSent (events lg) = []
     \<and> retry = filter (\<lambda>p. \<not> answered env p rc) ps
     \<and> pushed m r (filter (\<lambda>p. answered env p rc) ps) m'"
proof (induction ps arbitrary: m m' lg retry)
  case Nil
  then show ?case by (simp add: pushed_nil)
next
  case (Cons p ps)
  obtain m1 l1 a1 where a: "settlePart env m r p fs rc = (m1, l1, a1)"
    by (cases "settlePart env m r p fs rc") auto
  obtain m2 l2 r2 where b: "settleParts env m1 r ps fs rc = (m2, l2, r2)"
    by (cases "settleParts env m1 r ps fs rc") auto
  from Cons.prems(1) a b
  have e: "m' = m2" "lg = l1 @ l2" "retry = (if a1 then p # r2 else r2)" by simp_all
  have ex: "\<exists>a. rc \<le> a \<and> a \<le> 3 \<and> answered env p a" using Cons.prems(4) by simp
  from settlePart_quiet [OF a Cons.prems(2,3) ex]
  have one: "rejection l1 = None" "partsSent (events l1) = []"
    "if answered env p rc then \<not> a1 \<and> (\<exists>e. m1 = modify m r (pushPart p e))
     else a1 \<and> m1 = m" by simp_all
  have p1: "pushed m r (if answered env p rc then [p] else []) m1"
    using one(3) by (auto simp: pushed_one pushed_nil split: if_splits)
  then have na: "\<not> isAborted (objects m1 r)"
    using Cons.prems(3) by (simp add: pushed_def)
  have "\<forall>p\<in>set ps. \<exists>a. rc \<le> a \<and> a \<le> 3 \<and> answered env p a" using Cons.prems(4) by simp
  from Cons.IH [OF b Cons.prems(2) na this]
  have ih: "rejection l2 = None" "partsSent (events l2) = []"
    "r2 = filter (\<lambda>p. \<not> answered env p rc) ps"
    "pushed m1 r (filter (\<lambda>p. answered env p rc) ps) m2" by simp_all
  have "pushed m r (filter (\<lambda>p. answered env p rc) (p # ps)) m2"
  proof (cases "answered env p rc")
    case True
    with p1 ih(4) show ?thesis by (simp add: pushed_cons)
  next
    case False
    with one(3) ih(4) show ?thesis by simp
  qed
  with e one ih show ?case
    by (auto simp: rejection_append partsSent_append)
qed

lemma runTasks_live:
  "runTasks env m r ps fs rc = (m', lg) \<Longrightarrow> quiet env \<Longrightarrow> \<not> isAborted (objects m r) \<Longrightarrow>
   \<forall>p\<in>set ps. \<exists>a. rc \<le> a \<and> a \<le> 3 \<and> answered env p a \<Longrightarrow>
     rejection lg = None \<and> pushed m r ps m' \<and> set ps \<subseteq> set (partsSent (events lg))"
proof (induction rule: runTasks_induct)
  case (final m ps rc m1 tr1 started m2 lg2)
  from readParts_quiet [OF final(1,3,4)]
  have rd: "m1 = m" "started = ps"
    "\<forall>p\<in>set ps. partReply env p rc \<noteq> ReadThrows \<longrightarrow> p \<in> set (partsSent tr1)" by simp_all
  from settleParts_quiet [OF final(2) final(3)] rd final(4,5)
  have st: "rejection lg2 = None" "[] = filter (\<lambda>p. \<not> answered env p rc) ps"
    "pushed m r (filter (\<lambda>p. answered env p rc) ps) m2" by simp_all
  have all: "\<forall>p\<in>set ps. answered env p rc"
    using st(2) [symmetric] by (simp add: filter_empty_conv)
  then have "filter (\<lambda>p. answered env p rc) ps = ps" by simp
  with st(3) have "pushed m r ps m2" by simp
  moreover have "set ps \<subseteq> set (partsSent tr1)"
    using rd(3) all by (auto simp: answered_def)
  ultimately show ?case using st(1) by (auto simp: rejection_append partsSent_append)
next
  case (again m ps rc m1 tr1 started m2 lg2 retry m3 lg3)
  from readParts_quiet [OF again(1,7,8)]
  have rd: "m1 = m" "started = ps"
    "\<forall>p\<in>set ps. partReply env p rc \<noteq> ReadThrows \<longrightarrow> p \<in> set (partsSent tr1)" by simp_all
  from settleParts_quiet [OF again(2) again(7)] rd again(8,9)
  have st: "rejection lg2 = None" "retry = filter (\<lambda>p. \<not> answered env p rc) ps"
    "pushed m r (filter (\<lambda>p. answered env p rc) ps) m2" by simp_all
  have na: "\<not> isAborted (objects m2 r)"
    using st(3) again(8) by (simp add: pushed_def)
  have later: "\<forall>p\<in>set retry. \<exists>a. rc + 1 \<le> a \<and> a \<le> 3 \<and> answered env p a"
  proof
    fix p assume "p \<in> set retry"
    then have p: "p \<in> set ps" "\<not> answered env p rc" using st(2) by auto
    with again(9) obtain a where a: "rc \<le> a" "a \<le> 3" "answered env p a" by blast
    with p(2) have "a \<noteq> rc" by blast
    with a have "rc + 1 \<le> a" by linarith
    with a show "\<exists>a. rc + 1 \<le> a \<and> a \<le> 3 \<and> answered env p a" by blast
  qed
  from again(6) [OF again(7) na later]
  have ih: "rejection lg3 = None" "pushed m2 r retry m3"
    "set retry \<subseteq> set (partsSent (events lg3))" by simp_all
  have "pushed m r ps m3"
    using st(3) ih(2) unfolding st(2) by (rule pushed_split)
  moreover have "set ps \<subseteq> set (partsSent (tr1 @ events lg2 @ events lg3))"
  proof
    fix p assume p: "p \<in> set ps"
    show "p \<in> set (partsSent (tr1 @ events lg2 @ events lg3))"
    proof (cases "answered env p rc")
      case True
      then have "partReply env p rc \<noteq> ReadThrows" by (auto simp: answered_def)
      with rd(3) p show ?thesis by (simp add: partsSent_append)
    next
      case False
      with p have "p \<in> set retry" using st(2) by simp
      with ih(3) show ?thesis by (auto simp: partsSent_append)
    qed
  qed
  ultimately show ?case using st(1) ih(1) by (simp add: rejection_append)
qed

lemma collectParts_keeps:
  "set parts \<subseteq> set (collectParts U tp t parts)"
proof (induction U tp t parts rule: collectParts.induct)
  case (1 uploaded tp tempNext parts)
  show ?case
  proof (cases "length parts < MAX_CONCURRENT_UPLOADS \<and> tempNext \<le> tp")
    case False
    then have "collectParts uploaded tp tempNext parts = parts"
      by (subst collectParts.simps) (simp only: if_False)
    then show ?thesis by simp
  next
    case True
    from "1.IH" [OF True] True show ?thesis
      by (auto simp: collectParts.simps [of uploaded tp tempNext parts] split: if_splits)
  qed
qed

lemma collectParts_complete:
  assumes "parts \<noteq> []" and "last parts < t" and "t \<le> p"
    and "p \<le> last (collectParts U tp t parts)" and "p \<notin> U"
  shows "p \<in> set (collectParts U tp t parts)"
  using assms
proof (induction U tp t parts rule: collectParts.induct)
  case (1 uploaded tp tempNext parts)
  show ?case
  proof (cases "length parts < MAX_CONCURRENT_UPLOADS \<and> tempNext \<le> tp")
    case False
    then have "collectParts uploaded tp tempNext parts = parts"
      by (subst collectParts.simps) (simp only: if_False)
    with "1.prems" show ?thesis by simp
  next
    case True
    let ?parts = "if tempNext \<notin> uploaded then parts @ [tempNext] else parts"
    have eq: "collectParts uploaded tp tempNext parts
                = collectParts uploaded tp (tempNext + 1) ?parts"
      using True by (subst collectParts.simps) simp
    show ?thesis
    proof (cases "p = tempNext")
      case True
      then have "p \<in> set ?parts" using "1.prems"(5) by simp
      then show ?thesis unfolding eq using collectParts_keeps by blast
    next
      case False
      then have "tempNext + 1 \<le> p" using "1.prems"(3) by simp
      moreover have "?parts \<noteq> []" and "last ?parts < tempNext + 1"
        using "1.prems"(1,2) by auto
      moreover have "p \<le> last (collectParts uploaded tp (tempNext + 1) ?parts)"
        using "1.prems"(4) unfolding eq .
      ultimately show ?thesis
        unfolding eq using "1.IH" [OF True] "1.prems"(5) by blast
    qed
  qed
qed

lemma collectParts_distinct:
  assumes "distinct parts" and "\<forall>x\<in>set parts. x < t"
  shows "distinct (collectParts U tp t parts)"
  using assms
proof (induction U tp t parts rule: collectParts.induct)
  case (1 uploaded tp tempNext parts)
  show ?case
  proof (cases "length parts < MAX_CONCURRENT_UPLOADS \<and> tempNext \<le> tp")
    case False
    then have "collectParts uploaded tp tempNext parts = parts"
      by (subst collectParts.simps) (simp only: if_False)
    with "1.prems" show ?thesis by simp
  next
    case True
    let ?parts = "if tempNext \<notin> uploaded then parts @ [tempNext] else parts"
    have "distinct ?parts" and "\<forall>x\<in>set ?parts. x < tempNext + 1"
      using "1.prems" by auto
    from "1.IH" [OF True this] True show ?thesis
      by (simp add: collectParts.simps [of uploaded tp tempNext parts])
  qed
qed

lemma findNextPart_least:
  assumes "findNextPart U n tp = Some x" and "p \<in> {1..tp}" and "p \<notin> U" and "n \<le> p"
  shows "x \<le> p"
proof -
  from assms(1) obtain i where i: "i < length [1..<Suc tp]" "x = [1..<Suc tp] ! i"
    and least: "\<forall>j<i. \<not> ([1..<Suc tp] ! j \<notin> U \<and> n \<le> [1..<Suc tp] ! j)"
    unfolding findNextPart_def find_Some_iff by blast
  have x: "x = 1 + i" using i by (simp del: upt_Suc)
  show ?thesis
  proof (rule ccontr)
    assume "\<not> x \<le> p"
    then have "p - 1 < i" using x assms(2) by auto
    with least have "\<not> ([1..<Suc tp] ! (p - 1) \<notin> U \<and> n \<le> [1..<Suc tp] ! (p - 1))"
      by blast
    moreover have "[1..<Suc tp] ! (p - 1) = p"
      using assms(2) by (simp del: upt_Suc)
    ultimately show False using assms(3,4) by simp
  qed
qed

lemma findNextPart_None:
  assumes "findNextPart U n tp = None" and "p \<in> {1..tp}" and "n \<le> p"
  shows "p \<in> U"
proof -
  have "p \<in> set [1..<Suc tp]" using assms(2) by auto
  with assms(1,3) show ?thesis
    unfolding findNextPart_def find_None_iff by blast
qed

text \<open>
  The state at the head of the loop in an undisturbed run: not paused, not aborted, every
  stored part a planned part, stored once, and no missing part below the cursor.
\<close>

definition ready :: "UploadState Manager \<Rightarrow> ref \<Rightarrow> nat \<Rightarrow> bool" where
  "ready m r tp =
     (\<not> isPaused (objects m r) \<and> \<not> isAborted (objects m r)
      \<and> card (stored (objects m r)) = length (uploadedParts (objects m r))
      \<and> stored (objects m r) \<subseteq> {1..tp}
      \<and> (\<forall>p\<in>{1..tp}. p \<notin> stored (objects m r) \<longrightarrow> nextPartNumber (objects m r) \<le> p))"

lemma full_when_counted:
  assumes "card S = tp" and "S \<subseteq> {1..tp}"
  shows "S = {1..tp}"
  using assms by (simp add: card_subset_eq)

lemma batch_ready:
  assumes rd: "ready m r tp"
    and f: "findNextPart (stored (objects m r)) (nextPartNumber (objects m r)) tp = Some n"
    and parts: "parts = collectParts (stored (objects m r)) tp (n + 1) [n]"
    and m1: "m1 = modify m r (\<lambda>s. s\<lparr>nextPartNumber := last parts + 1\<rparr>)"
    and p: "pushed m1 r parts m2"
  shows "ready m2 r tp \<and> stored (objects m2 r) = stored (objects m r) \<union> set parts
       \<and> set parts \<subseteq> {1..tp} - stored (objects m r)"
proof -
  let ?U = "stored (objects m r)"
  have sub: "set parts \<subseteq> {1..tp} - ?U"
    unfolding parts using f by (rule batch_parts_missing)
  have dist: "distinct parts"
    unfolding parts by (rule collectParts_distinct) simp_all
  have st2: "stored (objects m2 r) = ?U \<union> set parts"
    using p by (simp add: pushed_def m1)
  have len2: "length (uploadedParts (objects m2 r))
                = length (uploadedParts (objects m r)) + length parts"
    using p by (simp add: pushed_def m1 modify_def)
  have fin: "finite ?U" by (simp add: stored_def)
  have "card (?U \<union> set parts) = card ?U + card (set parts)"
    using sub fin by (intro card_Un_disjoint) auto
  then have card2: "card (stored (objects m2 r)) = length (uploadedParts (objects m2 r))"
    using rd dist st2 len2 by (simp add: ready_def distinct_card)
  have flags: "\<not> isPaused (objects m2 r) \<and> \<not> isAborted (objects m2 r)"
    using p rd by (simp add: pushed_def ready_def m1 modify_def)
  have npn: "nextPartNumber (objects m2 r) = last parts + 1"
    using p by (simp add: pushed_def m1 modify_def)
  have cursor: "nextPartNumber (objects m2 r) \<le> q"
    if q: "q \<in> {1..tp}" "q \<notin> stored (objects m2 r)" for q
  proof (rule ccontr)
    assume "\<not> nextPartNumber (objects m2 r) \<le> q"
    then have le: "q \<le> last parts" using npn by simp
    have qU: "q \<notin> ?U" and qp: "q \<notin> set parts" using q(2) st2 by auto
    have "nextPartNumber (objects m r) \<le> q" using rd q(1) qU by (simp add: ready_def)
    with f q(1) qU have "n \<le> q" by (rule findNextPart_least)
    moreover have "n \<in> set parts" unfolding parts using collectParts_keeps [of "[n]"] by auto
    ultimately have "n + 1 \<le> q" using qp by (cases "q = n") auto
    with le qU have "q \<in> set parts"
      unfolding parts by (intro collectParts_complete) simp_all
    with qp show False by simp
  qed
  have "stored (objects m2 r) \<subseteq> {1..tp}"
    using st2 sub rd by (auto simp: ready_def)
  with card2 flags cursor st2 sub show ?thesis by (simp add: ready_def)
qed

lemma uploadLoop_live:
  assumes "uploadLoop env m r fs tp = (m', lg)" and "quiet env" and "answeredInTime env"
    and "ready m r tp"
  shows "rejection lg = None
       \<and> set (partsSent (events lg)) = {1..tp} - stored (objects m r)
       \<and> stored (objects m' r) = {1..tp} \<and> length (uploadedParts (objects m' r)) = tp
       \<and> \<not> isPaused (objects m' r) \<and> \<not> isAborted (objects m' r)
       \<and> bucket (objects m' r) = bucket (objects m r)
       \<and> key (objects m' r) = key (objects m r)
       \<and> uploadId (objects m' r) = uploadId (objects m r)"
  using assms
proof (induction rule: uploadLoop_induct)
  case (stop m)
  then show ?case by (simp add: ready_def)
next
  case (none m)
  have "{1..tp} \<subseteq> stored (objects m r)"
  proof
    fix p assume p: "p \<in> {1..tp}"
    show "p \<in> stored (objects m r)"
    proof (rule ccontr)
      assume n: "p \<notin> stored (objects m r)"
      with none(5) p have "nextPartNumber (objects m r) \<le> p" by (simp add: ready_def)
      moreover have "findNextPart (stored (objects m r)) (nextPartNumber (objects m r)) tp
                       = None"
        using none(2) by (simp add: stored_def)
      ultimately have "p \<in> stored (objects m r)"
        using p findNextPart_None by blast
      with n show False by simp
    qed
  qed
  moreover have "stored (objects m r) \<subseteq> {1..tp}"
    using none(5) by (simp add: ready_def)
  ultimately have full: "stored (objects m r) = {1..tp}" by blast
  have "length (uploadedParts (objects m r)) = tp"
    using none(5) full by (simp add: ready_def)
  with full none(5) show ?case by (simp add: ready_def)
next
  case (rejected m n parts m1 m2 lg)
  have na: "\<not> isAborted (objects m1 r)" "\<not> isPaused (objects m1 r)"
    using rejected(1) by (simp_all add: rejected(4) modify_def)
  then have "runTasks env m1 r parts fs 0 = (m2, lg)"
    using rejected(5) by (simp add: uploadBatch_def)
  moreover have "\<forall>p\<in>set parts. \<exists>a. 0 \<le> a \<and> a \<le> 3 \<and> answered env p a"
    using rejected(8) by (auto simp: answeredInTime_def)
  ultimately have "rejection lg = None"
    using runTasks_live [of env m1 r parts fs 0 m2 lg] rejected(7) na(1) by blast
  with rejected(6) show ?case by simp
next
  case (finished m n parts m1 m2 lg)
  have na: "\<not> isAborted (objects m1 r)" "\<not> isPaused (objects m1 r)"
    using finished(1) by (simp_all add: finished(4) modify_def)
  then have run: "runTasks env m1 r parts fs 0 = (m2, lg)"
    using finished(5) by (simp add: uploadBatch_def)
  have ans: "\<forall>p\<in>set parts. \<exists>a. 0 \<le> a \<and> a \<le> 3 \<and> answered env p a"
    using finished(9) by (auto simp: answeredInTime_def)
  from runTasks_live [OF run finished(8) na(1) ans] uploadBatch_safe [OF finished(5)]
  have pu: "pushed m1 r parts m2" and sent: "set (partsSent (events lg)) = set parts"
    by auto
  have f: "findNextPart (stored (objects m r)) (nextPartNumber (objects m r)) tp = Some n"
    using finished(2) by (simp add: stored_def)
  have parts: "parts = collectParts (stored (objects m r)) tp (n + 1) [n]"
    using finished(3) by (simp add: stored_def)
  from batch_ready [OF finished(10) f parts finished(4) pu]
  have rd2: "ready m2 r tp" and st2: "stored (objects m2 r) = stored (objects m r) \<union> set parts"
    and sub: "set parts \<subseteq> {1..tp} - stored (objects m r)" by simp_all
  have full: "stored (objects m2 r) = {1..tp}"
    using rd2 finished(7) by (intro full_when_counted) (simp_all add: ready_def)
  have "set parts = {1..tp} - stored (objects m r)"
    using full st2 sub by blast
  with sent have "set (partsSent (events lg)) = {1..tp} - stored (objects m r)" by simp
  moreover have "\<not> isPaused (objects m2 r) \<and> \<not> isAborted (objects m2 r)"
    using rd2 by (simp add: ready_def)
  moreover have "bucket (objects m2 r) = bucket (objects m r)
       \<and> key (objects m2 r) = key (objects m r)
       \<and> uploadId (objects m2 r) = uploadId (objects m r)"
    using pu by (simp add: pushed_def finished(4) modify_def)
  ultimately show ?case using full finished(6,7) by simp
next
  case (again m n parts m1 m2 lg m3 lg')
  have na: "\<not> isAborted (objects m1 r)" "\<not> isPaused (objects m1 r)"
    using again(1) by (simp_all add: again(4) modify_def)
  then have run: "runTasks env m1 r parts fs 0 = (m2, lg)"
    using again(5) by (simp add: uploadBatch_def)
  have ans: "\<forall>p\<in>set parts. \<exists>a. 0 \<le> a \<and> a \<le> 3 \<and> answered env p a"
    using again(11) by (auto simp: answeredInTime_def)
  from runTasks_live [OF run again(10) na(1) ans] uploadBatch_safe [OF again(5)]
  have pu: "pushed m1 r parts m2" and sent: "set (partsSent (events lg)) = set parts"
    by auto
  have f: "findNextPart (stored (objects m r)) (nextPartNumber (objects m r)) tp = Some n"
    using again(2) by (simp add: stored_def)
  have parts: "parts = collectParts (stored (objects m r)) tp (n + 1) [n]"
    using again(3) by (simp add: stored_def)
  from batch_ready [OF again(12) f parts again(4) pu]
  have rd2: "ready m2 r tp" and st2: "stored (objects m2 r) = stored (objects m r) \<union> set parts"
    and sub: "set parts \<subseteq> {1..tp} - stored (objects m r)" by simp_all
  from again(9) [OF again(10) again(11) rd2]
  have ih: "rejection lg' = None"
    "set (partsSent (events lg')) = {1..tp} - stored (objects m2 r)"
    "stored (objects m3 r) = {1..tp}" "length (uploadedParts (objects m3 r)) = tp"
    "\<not> isPaused (objects m3 r)" "\<not> isAborted (objects m3 r)"
    "bucket (objects m3 r) = bucket (objects m2 r)"
    "key (objects m3 r) = key (objects m2 r)"
    "uploadId (objects m3 r) = uploadId (objects m2 r)"
    by simp_all
  have id2: "bucket (objects m2 r) = bucket (objects m r)
       \<and> key (objects m2 r) = key (objects m r)
       \<and> uploadId (objects m2 r) = uploadId (objects m r)"
    using pu by (simp add: pushed_def again(4) modify_def)
  have "set parts \<union> ({1..tp} - stored (objects m2 r)) = {1..tp} - stored (objects m r)"
    using st2 sub by blast
  then have "set (partsSent (events (lg @ lg'))) = {1..tp} - stored (objects m r)"
    using sent ih(2) by (simp add: partsSent_append)
  with ih id2 again(6) show ?case by (simp add: rejection_append)
qed

text \<open>\<open>multipartUpload\<close> once the state object exists and the file is open.\<close>

lemma multipartUpload_loop:
  assumes run: "multipartUpload env m b k fp fs rid = (res, m', tr)"
    and init: "startState env m b k fp fs rid = (Inr st, tr0)"
    and opened: "openReply env = Reply ()"
    and loop: "uploadLoop env (registered m (stateKey b k) st) (nextRef m) fs
                 (calcTotalParts fs) = (m2, lg)"
  shows "partsSent tr = partsSent tr0 @ partsSent (events lg)"
    and "rejection lg = None \<Longrightarrow> \<not> isAborted (objects m2 (nextRef m)) \<Longrightarrow>
         \<not> isPaused (objects m2 (nextRef m)) \<Longrightarrow>
         length (uploadedParts (objects m2 (nextRef m))) = calcTotalParts fs \<Longrightarrow>
           CompleteMultipartUpload (bucket (objects m2 (nextRef m)))
             (key (objects m2 (nextRef m))) (uploadId (objects m2 (nextRef m)))
             (uploadedParts (objects m2 (nextRef m))) \<in> set tr"
proof -
  have split: "partsSent (untilRejection lg) @ partsSent (afterRejection lg)
                 = partsSent (events lg)"
    by (simp add: events_split [of lg] partsSent_append)
  from run show "partsSent tr = partsSent tr0 @ partsSent (events lg)"
  proof (cases rule: multipartUpload_cases)
    case (initFailed e tr0')
    with init show ?thesis by simp
  next
    case (openFailed st' tr0')
    with opened show ?thesis by simp
  next
    case (rejected st' tr0' m2' lg' e ab)
    with init loop have "tr0' = tr0" "lg' = lg" by simp_all
    with rejected(7) split show ?thesis
      by (simp add: partsSent_append failedEvent_def)
  next
    case (aborted st' tr0' m2' lg')
    with init loop have "tr0' = tr0" "lg' = lg" by simp_all
    with aborted(8) show ?thesis by (simp add: partsSent_append)
  next
    case (paused st' tr0' m2' lg')
    with init loop have "tr0' = tr0" "lg' = lg" by simp_all
    with paused(9) show ?thesis by (simp add: partsSent_append pausedEvent_def)
  next
    case (incomplete st' tr0' m2' lg')
    with init loop have "tr0' = tr0" "lg' = lg" by simp_all
    with incomplete(10) show ?thesis by (simp add: partsSent_append failedEvent_def)
  next
    case (completeFailed st' tr0' m2' lg')
    with init loop have "tr0' = tr0" "lg' = lg" by simp_all
    with completeFailed(11) show ?thesis by (simp add: partsSent_append failedEvent_def)
  next
    case (completed st' tr0' m2' lg')
    with init loop have "tr0' = tr0" "lg' = lg" by simp_all
    with completed(11) show ?thesis by (simp add: partsSent_append completedEvent_def)
  qed
next
  assume ok: "rejection lg = None" "\<not> isAborted (objects m2 (nextRef m))"
    "\<not> isPaused (objects m2 (nextRef m))"
    "length (uploadedParts (objects m2 (nextRef m))) = calcTotalParts fs"
  from run show "CompleteMultipartUpload (bucket (objects m2 (nextRef m)))
             (key (objects m2 (nextRef m))) (uploadId (objects m2 (nextRef m)))
             (uploadedParts (objects m2 (nextRef m))) \<in> set tr"
  proof (cases rule: multipartUpload_cases)
    case (initFailed e tr0')
    with init show ?thesis by simp
  next
    case (openFailed st' tr0')
    with opened show ?thesis by simp
  next
    case (rejected st' tr0' m2' lg' e ab)
    with init loop ok show ?thesis by simp
  next
    case (aborted st' tr0' m2' lg')
    with init loop ok show ?thesis by simp
  next
    case (paused st' tr0' m2' lg')
    with init loop ok show ?thesis by simp
  next
    case (incomplete st' tr0' m2' lg')
    with init loop ok show ?thesis by simp
  next
    case (completeFailed st' tr0' m2' lg')
    with init loop have "m2' = m2" by simp
    with completeFailed(11) show ?thesis by simp
  next
    case (completed st' tr0' m2' lg')
    with init loop have "m2' = m2" by simp
    with completed(11) show ?thesis by simp
  qed
qed

text \<open>
  Resuming in the gap-scanning copy. The transfer is registered under its own bucket and
  key, the object store lists the parts \<open>ps\<close> for its upload id, and the file can be
  opened. Then in every environment no listed part is sent again and only planned parts
  are sent; and when nobody interferes, every part is answered within its four attempts and
  the listed parts are planned parts without duplicates, exactly the missing parts are
  sent and the transfer is finalized with every planned part once.
\<close>

theorem gap_scan_resume_sends_missing_parts:
  assumes "uploadStates m (stateKey b k) = Some r"
    and "bucket (objects m r) = b" and "key (objects m r) = k"
    and "uploadId (objects m r) \<noteq> []"
    and "listReply env = Reply (Some ps)" and "openReply env = Reply ()"
    and "tp = calcTotalParts (fileSize (objects m r))"
  shows "case resumeUpload env m b k of (res, m', tr) \<Rightarrow>
           set (partsSent tr) \<inter> PartNumber ` set ps = {}
         \<and> set (partsSent tr) \<subseteq> {1..tp}
         \<and> (quiet env \<and> answeredInTime env \<and> distinct (map PartNumber ps)
              \<and> PartNumber ` set ps \<subseteq> {1..tp} \<longrightarrow>
                set (partsSent tr) = {1..tp} - PartNumber ` set ps
              \<and> (\<exists>parts. CompleteMultipartUpload b k (uploadId (objects m r)) parts \<in> set tr
                    \<and> PartNumber ` set parts = {1..tp} \<and> length parts = tp))"
proof -
  let ?uid = "uploadId (objects m r)"
  let ?fs = "fileSize (objects m r)"
  let ?fp = "filePath (objects m r)"
  define ma where "ma = modify m r (\<lambda>s. s\<lparr>isPaused := False\<rparr>)"
  define st where "st = \<lparr>uploadId = ?uid, bucket = b, key = k,
      filePath = ?fp, fileSize = ?fs, uploadedParts = ps, nextPartNumber = 1,
      isPaused = False, isAborted = False\<rparr>"
  define r1 where "r1 = nextRef ma"
  define m1 where "m1 = registered ma (stateKey b k) st"
  have ru: "resumeUpload env m b k = multipartUpload env ma b k ?fp ?fs (Some ?uid)"
    using assms(1-3) by (simp add: resumeUpload_def Let_def ma_def modify_def)
  have init: "startState env ma b k ?fp ?fs (Some ?uid) = (Inr st, [ListParts b k ?uid])"
    using assms(4,5)
    by (simp add: resumeMultipartUpload_def finalUploadId_def truthy_def Let_def st_def)
  obtain m2 lg where l: "uploadLoop env m1 r1 ?fs tp = (m2, lg)"
    by (cases "uploadLoop env m1 r1 ?fs tp") auto
  then have l': "uploadLoop env (registered ma (stateKey b k) st) (nextRef ma) ?fs
                   (calcTotalParts ?fs) = (m2, lg)"
    by (simp add: m1_def r1_def assms(7))
  obtain res m' tr where rr: "resumeUpload env m b k = (res, m', tr)"
    by (cases "resumeUpload env m b k") auto
  then have run: "multipartUpload env ma b k ?fp ?fs (Some ?uid) = (res, m', tr)"
    using ru by simp
  have o1: "objects m1 r1 = st" by (simp add: m1_def r1_def)
  have st1: "stored (objects m1 r1) = PartNumber ` set ps"
    by (simp add: o1 st_def stored_def)
  have sent: "partsSent tr = partsSent (events lg)"
    using multipartUpload_loop(1) [OF run init assms(6) l'] by simp
  have safe: "set (partsSent tr) \<subseteq> {1..tp} - PartNumber ` set ps"
    using uploadLoop_safe [OF l] sent st1 by simp
  have live: "set (partsSent tr) = {1..tp} - PartNumber ` set ps
              \<and> (\<exists>parts. CompleteMultipartUpload b k ?uid parts \<in> set tr
                    \<and> PartNumber ` set parts = {1..tp} \<and> length parts = tp)"
    if q: "quiet env" and a: "answeredInTime env" and d: "distinct (map PartNumber ps)"
      and sub: "PartNumber ` set ps \<subseteq> {1..tp}"
  proof -
    have "card (PartNumber ` set ps) = length ps"
      using d distinct_card [of "map PartNumber ps"] by simp
    then have "ready m1 r1 tp"
      using sub by (simp add: ready_def o1 st1 [unfolded o1]) (simp add: st_def)
    from uploadLoop_live [OF l q a this]
    have ll: "rejection lg = None"
      "set (partsSent (events lg)) = {1..tp} - stored (objects m1 r1)"
      "stored (objects m2 r1) = {1..tp}" "length (uploadedParts (objects m2 r1)) = tp"
      "\<not> isPaused (objects m2 r1)" "\<not> isAborted (objects m2 r1)"
      "bucket (objects m2 r1) = bucket (objects m1 r1)"
      "key (objects m2 r1) = key (objects m1 r1)"
      "uploadId (objects m2 r1) = uploadId (objects m1 r1)"
      by simp_all
    have "CompleteMultipartUpload (bucket (objects m2 r1)) (key (objects m2 r1))
           (uploadId (objects m2 r1)) (uploadedParts (objects m2 r1)) \<in> set tr"
      unfolding r1_def
      using ll(1) ll(6) ll(5) ll(4) unfolding r1_def assms(7)
      by (rule multipartUpload_loop(2) [OF run init assms(6) l'])
    then have c: "CompleteMultipartUpload b k ?uid (uploadedParts (objects m2 r1)) \<in> set tr"
      using ll(7-9) by (simp add: o1 st_def)
    have "PartNumber ` set (uploadedParts (objects m2 r1)) = {1..tp}"
      using ll(3) by (simp add: stored_def)
    then show ?thesis using c ll(2,4) sent st1 by auto
  qed
  from safe live show ?thesis unfolding rr by auto
qed

text \<open>
  Claim C1, at the earlier copy. The transfer has five parts, of which the object store
  lists parts 2 and 4. \<open>resumeMultipartUpload\<close> of the earlier copy sets the cursor to the
  number of listed parts plus one, and its loop only counts upwards from the cursor: the
  resumed transfer sends parts 3, 4 and 5. Part 4, which is stored, is sent again, part 1,
  which is missing, is never sent, and the transfer is finalized with part 4 twice and no
  part 1. The gap-scanning copy sends parts 1, 3 and 5 at the same input.
\<close>

theorem earlier_copy_resume_ignores_gaps:
  "fst (resumeUpload_v1 gapEnv (oneTransfer gapState_v1) ''photos'' ''a.bin'') = Inr ()
   \<and> partsSent (snd (snd (resumeUpload_v1 gapEnv (oneTransfer gapState_v1)
                              ''photos'' ''a.bin''))) = [3, 4, 5]
   \<and> CompleteMultipartUpload ''photos'' ''a.bin'' ''id1''
        [\<lparr>PartNumber = 2, ETag = ''e2''\<rparr>, \<lparr>PartNumber = 3, ETag = ''etag''\<rparr>,
         \<lparr>PartNumber = 4, ETag = ''e4''\<rparr>, \<lparr>PartNumber = 4, ETag = ''etag''\<rparr>,
         \<lparr>PartNumber = 5, ETag = ''etag''\<rparr>]
       \<in> set (snd (snd (resumeUpload_v1 gapEnv (oneTransfer gapState_v1)
                              ''photos'' ''a.bin'')))
   \<and> partsSent (snd (snd (resumeUpload gapEnv (oneTransfer gapState)
                              ''photos'' ''a.bin''))) = [1, 3, 5]"
  by (simp add: run_v1_defs run_defs shared_defs input_defs)

section \<open>Retrying a failed part\<close>

text \<open>The store refuses the first two attempts at every part and answers the third.\<close>

definition flakyEnv :: env where
  "flakyEnv = (okEnv PART_SIZE)\<lparr>partReply :=
      (\<lambda>p a. if a < 2 then SendThrows else PartReply (Some ''etag''))\<rparr>"

lemma readPart_quiet_delays:
  "quiet env \<Longrightarrow> readPart env m r p fs rc = (m', tr) \<Longrightarrow> delays tr = []"
  by (auto simp: readPart_def atWait_quiet Let_def split: part_reply.splits)

lemma readParts_one_quiet:
  assumes "quiet env" and "\<not> isAborted (objects m r)"
  shows "\<exists>tr. readParts env m r [p] fs rc = (m, tr, [p]) \<and> delays tr = []"
proof -
  obtain m1 tr1 where a: "readPart env m r p fs rc = (m1, tr1)"
    by (cases "readPart env m r p fs rc") auto
  from readPart_quiet [OF assms(1) a] readPart_quiet_delays [OF assms(1) a] a assms(2)
  show ?thesis by simp
qed

lemma settlePart_quiet_ok:
  assumes "quiet env" and "answered env p rc"
  shows "\<exists>e tr. settlePart env m r p fs rc = (modify m r (pushPart p e), map Event tr, False)
           \<and> delays tr = []"
proof -
  from assms(2) obtain e where e: "e \<noteq> []" "partReply env p rc = PartReply (Some e)"
    by (auto simp: answered_def)
  obtain m2 tr2 where s: "storePart m r p e fs = (m2, tr2)"
    by (cases "storePart m r p e fs") auto
  have "m2 = modify m r (pushPart p e)"
    using storePart_pushPart [of m r p e fs] s by simp
  moreover have "delays tr2 = []" using storePart_delays [OF s] by simp
  moreover have "settlePart env m r p fs rc = (m2, map Event tr2, False)"
    using e s by (simp add: settlePart_def atWait_quiet [OF assms(1)])
  ultimately show ?thesis by blast
qed

lemma settlePart_quiet_failed:
  assumes "quiet env" and "\<not> isAborted (objects m r)" and "\<not> answered env p rc"
  shows "\<exists>e. settlePart env m r p fs rc =
           (if rc < 3 then (m, [Event (Delay (1000 * (rc + 1)))], True)
            else (m, [Rejected e False], False))"
proof -
  have c: "catchPart env m r p rc e =
             (if rc < 3 then (m, [Event (Delay (1000 * (rc + 1)))], True)
              else (m, [Rejected e False], False))" for e
    using assms(2) by (simp add: catchPart_def atWait_quiet [OF assms(1)])
  show ?thesis
  proof (cases "partReply env p rc")
    case ReadThrows
    then show ?thesis using c [of FsError] by (auto simp: settlePart_def)
  next
    case SendThrows
    then show ?thesis using c [of S3Error]
      by (auto simp: settlePart_def atWait_quiet [OF assms(1)])
  next
    case (PartReply etag)
    with assms(3) have "etag = None \<or> etag = Some []"
      by (cases etag) (auto simp: answered_def)
    with PartReply show ?thesis using c [of "PartFailed p"]
      by (auto simp: settlePart_def atWait_quiet [OF assms(1)])
  qed
qed

text \<open>
  A batch of one part task of the gap-scanning copy, from attempt \<open>rc\<close> on, when nobody
  interferes: the task runs until the first attempt that is answered, waiting 1000 ms times
  the attempt number after each failed attempt, and stores the part once; when the attempts
  up to the third retry all fail, it stores nothing and its promise is rejected.
\<close>

lemma runTasks_one_retries:
  assumes "runTasks env m r [p] fs rc = (m', lg)" and "quiet env"
    and "\<not> isAborted (objects m r)" and "rc \<le> 3"
  shows "(\<exists>a e. rc \<le> a \<and> a \<le> 3 \<and> answered env p a
            \<and> (\<forall>i. rc \<le> i \<and> i < a \<longrightarrow> \<not> answered env p i)
            \<and> rejection lg = None
            \<and> delays (events lg) = map (\<lambda>i. 1000 * (i + 1)) [rc..<a]
            \<and> m' = modify m r (pushPart p e))
       \<or> ((\<forall>i. rc \<le> i \<and> i \<le> 3 \<longrightarrow> \<not> answered env p i)
            \<and> (\<exists>e. rejection lg = Some (e, False))
            \<and> delays (events lg) = map (\<lambda>i. 1000 * (i + 1)) [rc..<3]
            \<and> m' = m)"
  using assms(1,4)
proof (induction "3 - rc" arbitrary: rc m' lg rule: less_induct)
  case less
  obtain tr1 where rd: "readParts env m r [p] fs rc = (m, tr1, [p])" and d1: "delays tr1 = []"
    using readParts_one_quiet [OF assms(2,3)] by blast
  show ?case
  proof (cases "answered env p rc")
    case True
    obtain e tr where s: "settlePart env m r p fs rc
                            = (modify m r (pushPart p e), map Event tr, False)"
      and d: "delays tr = []"
      using settlePart_quiet_ok [OF assms(2) True] by blast
    have "settleParts env m r [p] fs rc = (modify m r (pushPart p e), map Event tr, [])"
      using s by simp
    with rd less.prems(1)
    have r: "m' = modify m r (pushPart p e)" "lg = map Event tr1 @ map Event tr"
      by (simp_all add: runTasks.simps [of env m r "[p]" fs rc])
    have "\<forall>i. rc \<le> i \<and> i < rc \<longrightarrow> \<not> answered env p i"
      by (intro allI impI) linarith
    moreover have "delays (events lg) = map (\<lambda>i. 1000 * (i + 1)) [rc..<rc]"
      using r(2) d1 d by (simp add: delays_append)
    moreover have "rejection lg = None" using r(2) by (simp add: rejection_append)
    ultimately have "rc \<le> rc \<and> rc \<le> 3 \<and> answered env p rc
            \<and> (\<forall>i. rc \<le> i \<and> i < rc \<longrightarrow> \<not> answered env p i)
            \<and> rejection lg = None
            \<and> delays (events lg) = map (\<lambda>i. 1000 * (i + 1)) [rc..<rc]
            \<and> m' = modify m r (pushPart p e)"
      using True less.prems(2) r(1) by simp
    then show ?thesis by blast
  next
    case False
    obtain e where s: "settlePart env m r p fs rc =
           (if rc < 3 then (m, [Event (Delay (1000 * (rc + 1)))], True)
            else (m, [Rejected e False], False))"
      using settlePart_quiet_failed [OF assms(2,3) False] by blast
    show ?thesis
    proof (cases "rc < 3")
      case True
      have st: "settleParts env m r [p] fs rc = (m, [Event (Delay (1000 * (rc + 1)))], [p])"
        using s True by simp
      obtain m3 lg3 where c: "runTasks env m r [p] fs (rc + 1) = (m3, lg3)"
        by (cases "runTasks env m r [p] fs (rc + 1)") auto
      have r: "m' = m3" "lg = map Event tr1 @ [Event (Delay (1000 * (rc + 1)))] @ lg3"
        using rd st c less.prems(1) by (simp_all add: runTasks.simps [of env m r "[p]" fs rc])
      have dl: "delays (events lg) = 1000 * (rc + 1) # delays (events lg3)"
        using r(2) d1 by (simp add: delays_append)
      have rj: "rejection lg = rejection lg3"
        using r(2) by (simp add: rejection_append)
      have lower: "\<And>i. rc \<le> i \<Longrightarrow> \<not> answered env p i \<or> rc + 1 \<le> i"
      proof -
        fix i assume "rc \<le> i"
        then have "i = rc \<or> rc + 1 \<le> i" by linarith
        then show "\<not> answered env p i \<or> rc + 1 \<le> i" using False by blast
      qed
      have "3 - (rc + 1) < 3 - rc" "rc + 1 \<le> 3" using True by simp_all
      from less.hyps [OF this(1) c this(2)]
      consider (ok) a e where "rc + 1 \<le> a" "a \<le> 3" "answered env p a"
            "\<forall>i. rc + 1 \<le> i \<and> i < a \<longrightarrow> \<not> answered env p i" "rejection lg3 = None"
            "delays (events lg3) = map (\<lambda>i. 1000 * (i + 1)) [rc + 1..<a]"
            "m3 = modify m r (pushPart p e)"
        | (bad) "\<forall>i. rc + 1 \<le> i \<and> i \<le> 3 \<longrightarrow> \<not> answered env p i"
            "\<exists>e. rejection lg3 = Some (e, False)"
            "delays (events lg3) = map (\<lambda>i. 1000 * (i + 1)) [rc + 1..<3]" "m3 = m"
        by auto
      then show ?thesis
      proof cases
        case ok
        have "rc < a" using ok(1) by linarith
        then have u: "[rc..<a] = rc # [rc + 1..<a]" by (simp add: upt_conv_Cons)
        have "\<forall>i. rc \<le> i \<and> i < a \<longrightarrow> \<not> answered env p i"
          using ok(4) lower by blast
        moreover have "rc \<le> a" using ok(1) by linarith
        moreover have "delays (events lg) = map (\<lambda>i. 1000 * (i + 1)) [rc..<a]"
          unfolding dl u using ok(6) by simp
        moreover have "rejection lg = None" using rj ok(5) by simp
        moreover have "m' = modify m r (pushPart p e)" using r(1) ok(7) by simp
        ultimately show ?thesis using ok(2,3) by blast
      next
        case bad
        have u: "[rc..<3] = rc # [rc + 1..<3]" using True by (simp add: upt_conv_Cons)
        have "\<forall>i. rc \<le> i \<and> i \<le> 3 \<longrightarrow> \<not> answered env p i"
          using bad(1) lower by blast
        moreover have "delays (events lg) = map (\<lambda>i. 1000 * (i + 1)) [rc..<3]"
          unfolding dl u using bad(3) by simp
        moreover have "\<exists>e. rejection lg = Some (e, False)" using rj bad(2) by simp
        moreover have "m' = m" using r(1) bad(4) by simp
        ultimately show ?thesis by blast
      qed
    next
      case nl: False
      with less.prems(2) have rc: "rc = 3" by simp
      have st: "settleParts env m r [p] fs rc = (m, [Rejected e False], [])"
        using s nl by simp
      have r: "m' = m" "lg = map Event tr1 @ [Rejected e False]"
        using rd st less.prems(1) by (simp_all add: runTasks.simps [of env m r "[p]" fs rc])
      have "\<forall>i. rc \<le> i \<and> i \<le> 3 \<longrightarrow> \<not> answered env p i"
      proof (intro allI impI)
        fix i assume "rc \<le> i \<and> i \<le> 3"
        then have "i = rc" using rc by linarith
        then show "\<not> answered env p i" using False by simp
      qed
      moreover have "rejection lg = Some (e, False)"
        using r(2) by (simp add: rejection_append)
      moreover have "delays (events lg) = map (\<lambda>i. 1000 * (i + 1)) [rc..<3]"
        using r(2) d1 rc by (simp add: delays_append)
      ultimately show ?thesis using r(1) by blast
    qed
  qed
qed

text \<open>How often part \<open>p\<close> is in the parts a state has stored.\<close>

definition timesStored :: "nat \<Rightarrow> 'a UploadState_v1_scheme \<Rightarrow> nat" where
  "timesStored p st = length (filter (\<lambda>q. PartNumber q = p) (uploadedParts st))"

lemma timesStored_pushPart: "timesStored p (pushPart p e st) = Suc (timesStored p st)"
  by (simp add: timesStored_def pushPart_def filter_sort)

text \<open>
  \<open>uploadPart\<close> of the gap-scanning copy, as the only task of a batch of a transfer that is
  not aborted, when nobody interferes. Either some attempt among the first and its three
  retries is answered: then no promise is rejected, the task has waited 1000 ms times the
  attempt number after each failed attempt, and the part is stored one more time than
  before. Or all four attempts fail: then the promise is rejected after waits of 1000, 2000
  and 3000 ms and the state is as it was.
\<close>

theorem gap_scan_part_retried:
  assumes "uploadBatch env m r [p] fs = (m', lg)" and "quiet env"
    and "\<not> isAborted (objects m r)" and "\<not> isPaused (objects m r)"
  shows "(\<exists>a\<le>3. answered env p a \<and> (\<forall>i<a. \<not> answered env p i)
            \<and> rejection lg = None
            \<and> delays (events lg) = map (\<lambda>i. 1000 * (i + 1)) [0..<a]
            \<and> timesStored p (objects m' r) = Suc (timesStored p (objects m r)))
       \<or> ((\<forall>a\<le>3. \<not> answered env p a) \<and> (\<exists>e. rejection lg = Some (e, False))
            \<and> delays (events lg) = [1000, 2000, 3000] \<and> m' = m)"
proof -
  have run: "runTasks env m r [p] fs 0 = (m', lg)"
    using assms(1,3,4) by (simp add: uploadBatch_def)
  from runTasks_one_retries [OF run assms(2,3)]
  consider (ok) a e where "a \<le> 3" "answered env p a" "\<forall>i. i < a \<longrightarrow> \<not> answered env p i"
        "rejection lg = None" "delays (events lg) = map (\<lambda>i. 1000 * (i + 1)) [0..<a]"
        "m' = modify m r (pushPart p e)"
    | (bad) "\<forall>i. i \<le> 3 \<longrightarrow> \<not> answered env p i" "\<exists>e. rejection lg = Some (e, False)"
        "delays (events lg) = map (\<lambda>i. 1000 * (i + 1)) [0..<3]" "m' = m"
    by auto
  then show ?thesis
  proof cases
    case ok
    have "timesStored p (objects m' r) = Suc (timesStored p (objects m r))"
      by (simp add: ok(6) modify_def timesStored_pushPart)
    with ok(1-5) show ?thesis by blast
  next
    case bad
    have "map (\<lambda>i. 1000 * (i + 1)) [0..<3] = [1000, 2000, 3000::nat]"
      by (simp add: upt_conv_Cons)
    with bad show ?thesis by simp
  qed
qed

text \<open>
  Claim C2, at the earlier copy. The file has one part and the store refuses the first
  two attempts at a part. \<open>uploadPart\<close> of the earlier copy has no \<open>try\<close> and no retry: the
  upload sends part 1 once, sets no timer and fails. The gap-scanning copy sends part 1
  three times with waits of 1000 and 2000 ms in between, stores it once and succeeds.
\<close>

theorem earlier_copy_part_not_retried:
  "fst (uploadFile_v1 flakyEnv (emptyManager blankState_v1) ''photos'' ''a.bin'' ''./a.bin'')
     = Inl S3Error
   \<and> partsSent (snd (snd (uploadFile_v1 flakyEnv (emptyManager blankState_v1)
                              ''photos'' ''a.bin'' ''./a.bin''))) = [1]
   \<and> delays (snd (snd (uploadFile_v1 flakyEnv (emptyManager blankState_v1)
                              ''photos'' ''a.bin'' ''./a.bin''))) = []
   \<and> fst (uploadFile flakyEnv (emptyManager blankState) ''photos'' ''a.bin'' ''./a.bin'')
     = Inr ()
   \<and> partsSent (snd (snd (uploadFile flakyEnv (emptyManager blankState)
                              ''photos'' ''a.bin'' ''./a.bin''))) = [1, 1, 1]
   \<and> delays (snd (snd (uploadFile flakyEnv (emptyManager blankState)
                              ''photos'' ''a.bin'' ''./a.bin''))) = [1000, 2000]
   \<and> uploadedParts (objects (fst (snd (uploadFile flakyEnv (emptyManager blankState)
                              ''photos'' ''a.bin'' ''./a.bin''))) 0)
     = [\<lparr>PartNumber = 1, ETag = ''etag''\<rparr>]"
  by (simp add: run_v1_defs run_defs shared_defs input_defs flakyEnv_def)

section \<open>Finalizing a transfer\<close>

text \<open>The part counts of the finalize commands of a run.\<close>

fun finalized :: "event list \<Rightarrow> nat list" where
  "finalized [] = []"
| "finalized (CompleteMultipartUpload b k u ps # tr) = length ps # finalized tr"
| "finalized (e # tr) = finalized tr"

text \<open>A transfer of one part, stored, paused; \<open>fullEnv\<close> lists two parts for it.\<close>

definition onePartState_v1 :: UploadState_v1 where
  "onePartState_v1 = \<lparr>uploadId = ''id1'', bucket = ''photos'', key = ''a.bin'',
                      filePath = ''./a.bin'', fileSize = PART_SIZE,
                      uploadedParts = [\<lparr>PartNumber = 1, ETag = ''e1''\<rparr>],
                      nextPartNumber = 2, isPaused = True\<rparr>"

definition onePartState :: UploadState where
  "onePartState = \<lparr>uploadId = ''id1'', bucket = ''photos'', key = ''a.bin'',
                   filePath = ''./a.bin'', fileSize = PART_SIZE,
                   uploadedParts = [\<lparr>PartNumber = 1, ETag = ''e1''\<rparr>],
                   nextPartNumber = 2, isPaused = True, isAborted = False\<rparr>"

lemma finalized_append: "finalized (xs @ ys) = finalized xs @ finalized ys"
  by (induction xs rule: finalized.induct) simp_all

lemma finalized_opening: "\<forall>e\<in>set tr. openingEvent e \<Longrightarrow> finalized tr = []"
  by (induction tr rule: finalized.induct) simp_all

lemma finalized_parts: "\<forall>e\<in>set tr. partEvent fs e \<Longrightarrow> finalized tr = []"
  by (induction tr rule: finalized.induct) simp_all

lemma init_error:
  "(if c then resumeMultipartUpload env m b k fp fs rid
    else initiateMultipartUpload env b k fp fs) = (Inl e, tr) \<Longrightarrow> \<not> isIncomplete e"
  by (auto simp: resumeMultipartUpload_def initiateMultipartUpload_def Let_def
           split: reply.splits option.splits if_splits)

lemma init_finalized:
  "(if c then resumeMultipartUpload env m b k fp fs rid
    else initiateMultipartUpload env b k fp fs) = (i0, tr) \<Longrightarrow> finalized tr = []"
  by (auto simp: resumeMultipartUpload_def initiateMultipartUpload_def Let_def
           split: reply.splits option.splits if_splits)

lemma uploadLoop_finalized:
  assumes "uploadLoop env m r fs tp = (m', lg)"
  shows "finalized (events lg) = []" and "finalized (untilRejection lg) = []"
    and "finalized (afterRejection lg) = []"
    and "rejection lg = Some (e, x) \<Longrightarrow> \<not> isIncomplete e"
proof -
  note ev = uploadLoop_events [OF assms]
  from ev show "finalized (events lg) = []" by (rule finalized_parts)
  from log_parts [OF ev] show "finalized (untilRejection lg) = []"
    by (intro finalized_parts [where fs = fs]) simp
  from log_parts [OF ev] show "finalized (afterRejection lg) = []"
    by (intro finalized_parts [where fs = fs]) simp
  assume "rejection lg = Some (e, x)"
  then have "Rejected e x \<in> set lg" by (rule rejection_in_log)
  with batches_errors [OF uploadLoop_batches [OF assms]] show "\<not> isIncomplete e" by blast
qed

text \<open>
  Finalizing in the gap-scanning copy, in every environment. A finalize command is only
  sent with as many parts as the plan has; and a run that throws the incomplete-transfer
  error has sent no finalize command, and the count it reports differs from the plan.
\<close>

theorem gap_scan_finalize_needs_all_parts:
  assumes "multipartUpload env m b k fp fs rid = (res, m', tr)"
  shows "set (finalized tr) \<subseteq> {calcTotalParts fs}
       \<and> (\<forall>n t. res = Inl (Incomplete n t) \<longrightarrow>
             finalized tr = [] \<and> n \<noteq> t \<and> t = calcTotalParts fs)"
  using assms
proof (cases rule: multipartUpload_cases)
  case (initFailed e tr0)
  have "\<not> isIncomplete e" using initFailed(1) by (rule init_error)
  moreover have "finalized tr0 = []" using initFailed(1) by (rule init_finalized)
  ultimately show ?thesis
    using initFailed(2,4) by (auto simp: finalized_append failedEvent_def)
next
  case (openFailed st tr0)
  have "finalized tr0 = []" using openFailed(1) by (rule init_finalized)
  with openFailed(3) show ?thesis
    by (auto simp: catchBlock_def finalized_append failedEvent_def split: if_splits)
next
  case (rejected st tr0 m2 lg e ab)
  have "finalized tr0 = []" using rejected(1) by (rule init_finalized)
  moreover note uploadLoop_finalized(2,3) [OF rejected(3)]
  moreover have "\<not> isIncomplete e"
    using rejected(3,4) by (rule uploadLoop_finalized(4))
  ultimately show ?thesis
    using rejected(5,7) by (auto simp: finalized_append failedEvent_def)
next
  case (aborted st tr0 m2 lg)
  have "finalized tr0 = []" using aborted(1) by (rule init_finalized)
  with uploadLoop_finalized(1) [OF aborted(3)] aborted(6,8) show ?thesis
    by (simp add: finalized_append)
next
  case (paused st tr0 m2 lg)
  have "finalized tr0 = []" using paused(1) by (rule init_finalized)
  with uploadLoop_finalized(1) [OF paused(3)] paused(7,9) show ?thesis
    by (simp add: finalized_append pausedEvent_def)
next
  case (incomplete st tr0 m2 lg)
  have "finalized tr0 = []" using incomplete(1) by (rule init_finalized)
  with uploadLoop_finalized(1) [OF incomplete(3)] incomplete(7,8,10) show ?thesis
    by (simp add: finalized_append failedEvent_def)
next
  case (completeFailed st tr0 m2 lg)
  have "finalized tr0 = []" using completeFailed(1) by (rule init_finalized)
  with uploadLoop_finalized(1) [OF completeFailed(3)] completeFailed(7,9,11) show ?thesis
    by (simp add: finalized_append failedEvent_def)
next
  case (completed st tr0 m2 lg)
  have "finalized tr0 = []" using completed(1) by (rule init_finalized)
  with uploadLoop_finalized(1) [OF completed(3)] completed(7,9,11) show ?thesis
    by (simp add: finalized_append completedEvent_def)
qed

text \<open>
  And the other way round: when the loop of the gap-scanning copy ends without a rejected
  part task, with a transfer that is neither aborted nor paused and whose part count
  differs from the plan, the run throws the incomplete-transfer error and sends no finalize
  command.
\<close>

lemma gap_scan_incomplete_fails:
  assumes "startState env m b k fp fs rid = (Inr st, tr0)"
    and "openReply env = Reply u"
    and "uploadLoop env (registered m (stateKey b k) st) (nextRef m) fs (calcTotalParts fs)
           = (m2, lg)"
    and "rejection lg = None"
    and "\<not> isAborted (objects m2 (nextRef m))" and "\<not> isPaused (objects m2 (nextRef m))"
    and "length (uploadedParts (objects m2 (nextRef m))) \<noteq> calcTotalParts fs"
  shows "multipartUpload env m b k fp fs rid =
           (Inl (Incomplete (length (uploadedParts (objects m2 (nextRef m)))) (calcTotalParts fs)),
            m2, tr0 @ events lg @ [failedEvent fp fs])
       \<and> finalized (tr0 @ events lg @ [failedEvent fp fs]) = []"
proof -
  have "finalized tr0 = []" using assms(1) by (rule init_finalized)
  with uploadLoop_finalized(1) [OF assms(3)]
  have f: "finalized (tr0 @ events lg @ [failedEvent fp fs]) = []"
    by (simp add: finalized_append failedEvent_def)
  obtain res m' tr where run: "multipartUpload env m b k fp fs rid = (res, m', tr)"
    by (cases "multipartUpload env m b k fp fs rid") auto
  from run have "(res, m', tr) =
           (Inl (Incomplete (length (uploadedParts (objects m2 (nextRef m)))) (calcTotalParts fs)),
            m2, tr0 @ events lg @ [failedEvent fp fs])"
  proof (cases rule: multipartUpload_cases)
    case (initFailed e tr0')
    with assms(1) show ?thesis by simp
  next
    case (openFailed st' tr0')
    with assms(2) show ?thesis by simp
  next
    case (rejected st' tr0' m2' lg' e ab)
    with assms(1,3,4) show ?thesis by simp
  next
    case (aborted st' tr0' m2' lg')
    with assms(1,3,5) show ?thesis by simp
  next
    case (paused st' tr0' m2' lg')
    with assms(1,3,6) show ?thesis by simp
  next
    case (incomplete st' tr0' m2' lg')
    with assms(1,3) show ?thesis by simp
  next
    case (completeFailed st' tr0' m2' lg')
    with assms(1,3,7) show ?thesis by simp
  next
    case (completed st' tr0' m2' lg')
    with assms(1,3,7) show ?thesis by simp
  qed
  with run f show ?thesis by simp
qed

text \<open>
  Claim C5, at the earlier copy. The registered transfer has a file of one part and the
  object store lists two parts for its upload id. \<open>multipartUpload\<close> of the earlier copy
  goes from its loop to the finalize command without comparing the counts: the resumed
  transfer sends the finalize command with two parts for a plan of one part and reports
  \<open>completed\<close>. The gap-scanning copy throws the incomplete-transfer error at the same
  input and sends no finalize command.
\<close>

theorem earlier_copy_finalizes_without_count_check:
  "calcTotalParts (fileSize onePartState_v1) = 1
   \<and> fst (resumeUpload_v1 fullEnv (oneTransfer onePartState_v1) ''photos'' ''a.bin'') = Inr ()
   \<and> finalized (snd (snd (resumeUpload_v1 fullEnv (oneTransfer onePartState_v1)
                              ''photos'' ''a.bin''))) = [2]
   \<and> fst (resumeUpload fullEnv (oneTransfer onePartState) ''photos'' ''a.bin'')
       = Inl (Incomplete 2 1)
   \<and> finalized (snd (snd (resumeUpload fullEnv (oneTransfer onePartState)
                              ''photos'' ''a.bin''))) = []"
  by (simp add: run_v1_defs run_defs shared_defs input_defs onePartState_v1_def
        onePartState_def)


end
